theory Spec2Isabelle
  imports Main "HOL-Library.Char_ord" "HOL-Library.List_Lexorder" "HOL-Library.Multiset"
    "HOL-Library.AList" "HOL-Library.Monad_Syntax"
begin

chapter \<open>The scheduler loop\<close>

section \<open>Entries and the scheduler state\<close>

text \<open>
  Instants (Go's \<open>time.Time\<close>) are integers: nanoseconds since the epoch. \<open>Before\<close> and
  \<open>After\<close> compare instants, \<open>Add\<close> adds a duration in nanoseconds.
\<close>

type_synonym time = int

definition Before :: "time \<Rightarrow> time \<Rightarrow> bool" where
  "Before t u = (t < u)"

definition After :: "time \<Rightarrow> time \<Rightarrow> bool" where
  "After t u = (t > u)"

definition Second :: int where
  "Second = 1000000000"

datatype entry_type = Start | Stop | Restart

text \<open>
  Modelled from the spec: the type \<open>entry.Entry\<close> is declared in a package that is not among
  the source files. Section 3 of the specification gives its fields: a reference to a
  DAG (\<open>Job\<close>), the kind of action, and the \<open>Next\<close> instant.
\<close>

record entry =
  Next :: time
  Job :: string
  EntryType :: entry_type

text \<open>
  \<open>Scheduler\<close>: the two fields that \<open>run\<close> and \<open>Stop\<close> read and write. The channel \<open>stop\<close>
  is either nil (\<open>None\<close>) or a channel, of which the model keeps the number of values
  sent on it so far.
\<close>

record Scheduler =
  running :: bool
  stop :: "nat option"

section \<open>\<open>Scheduler.run\<close>\<close>

text \<open>
  The body of the \<open>for\<close> loop of \<open>run\<close>: the entries are visited in order, the loop breaks at
  the first entry whose \<open>Next\<close> is after \<open>now\<close>, and every entry visited before that is
  dispatched (\<open>go e.Invoke()\<close>). The result is the list of dispatched entries, in the
  order of their \<open>go\<close> statements.
\<close>

fun dispatch :: "time \<Rightarrow> entry list \<Rightarrow> entry list" where
  "dispatch now [] = []"
| "dispatch now (e # es) =
     (if After (Next e) now then [] else e # dispatch now es)"

text \<open>
  \<open>sort.SliceStable\<close> with the comparison \<open>entries[i].Next.Before(entries[j].Next)\<close> is a
  stable sort by ascending \<open>Next\<close>: \<open>sort_key\<close> (insertion sort, stable). The entry
  reader is a parameter; it returns the entries and an error, which \<open>run\<close> only logs.
\<close>

definition run :: "(time \<Rightarrow> entry list \<times> string option) \<Rightarrow> time \<Rightarrow> entry list" where
  "run Read now =
     (let (entries, err) = Read (now + (- Second));
          entries = sort_key Next entries
      in dispatch now entries)"

section \<open>\<open>Scheduler.Stop\<close>\<close>

definition Stop_scheduler :: "Scheduler \<Rightarrow> Scheduler" where
  "Stop_scheduler r =
     (if \<not> running r then r
      else
        let r = (case stop r of None \<Rightarrow> r | Some n \<Rightarrow> r\<lparr>stop := Some (Suc n)\<rparr>)
        in r\<lparr>running := False\<rparr>)"

section \<open>Properties of the scheduler\<close>

lemma dispatch_takeWhile:
  "dispatch now es = takeWhile (\<lambda>e. Next e \<le> now) es"
  by (induction es) (auto simp: After_def)

lemma takeWhile_insort_key_le:
  assumes "sorted (map f xs)" and "f x \<le> (b::int)"
  shows "takeWhile (\<lambda>e. f e \<le> b) (insort_key f x xs)
         = insort_key f x (takeWhile (\<lambda>e. f e \<le> b) xs)"
  using assms by (induction xs) auto

lemma takeWhile_insort_key_gt:
  assumes "sorted (map f xs)" and "\<not> f x \<le> (b::int)"
  shows "takeWhile (\<lambda>e. f e \<le> b) (insort_key f x xs) = takeWhile (\<lambda>e. f e \<le> b) xs"
  using assms by (induction xs) auto

lemma takeWhile_sort_key:
  "takeWhile (\<lambda>e. f e \<le> (b::int)) (sort_key f xs) = sort_key f (filter (\<lambda>e. f e \<le> b) xs)"
proof (induction xs)
  case Nil
  then show ?case by simp
next
  case (Cons x xs)
  have s: "sorted (map f (sort_key f xs))" by simp
  show ?case
  proof (cases "f x \<le> b")
    case True
    then show ?thesis
      using takeWhile_insort_key_le [OF s True] Cons by simp
  next
    case False
    then show ?thesis
      using takeWhile_insort_key_gt [OF s False] Cons by simp
  qed
qed

lemma run_sort_filter:
  "run Read now = sort_key Next (filter (\<lambda>e. Next e \<le> now) (fst (Read (now - Second))))"
  by (simp add: run_def dispatch_takeWhile takeWhile_sort_key split: prod.splits)

text \<open>
  Claim C6. For every list of entries that the entry reader returns, \<open>run now\<close> dispatches
  exactly the entries whose \<open>Next\<close> is not after \<open>now\<close>, each as often as it occurs in the
  list (the multiset of dispatched entries is the multiset of due entries), in ascending
  order of \<open>Next\<close>, entries with the same \<open>Next\<close> in the order of the input; no entry
  whose \<open>Next\<close> is after \<open>now\<close> is dispatched.
\<close>

theorem run_dispatches_due_entries_in_order:
  "mset (run Read now) = filter_mset (\<lambda>e. \<not> After (Next e) now) (mset (fst (Read (now - Second))))
   \<and> sorted (map Next (run Read now))
   \<and> (\<forall>k. filter (\<lambda>e. Next e = k) (run Read now)
            = filter (\<lambda>e. Next e = k) (filter (\<lambda>e. \<not> After (Next e) now) (fst (Read (now - Second)))))
   \<and> filter (\<lambda>e. After (Next e) now) (run Read now) = []"
proof -
  let ?due = "filter (\<lambda>e. Next e \<le> now) (fst (Read (now - Second)))"
  have r: "run Read now = sort_key Next ?due" by (rule run_sort_filter)
  have a: "(\<lambda>e. \<not> After (Next e) now) = (\<lambda>e. Next e \<le> now)"
    by (auto simp: After_def)
  have 1: "mset (run Read now) = filter_mset (\<lambda>e. Next e \<le> now) (mset (fst (Read (now - Second))))"
    unfolding r by simp
  have 2: "sorted (map Next (run Read now))" unfolding r by simp
  have 3: "filter (\<lambda>e. Next e = k) (run Read now) = filter (\<lambda>e. Next e = k) ?due" for k
    unfolding r by (rule sort_key_stable)
  have "set (run Read now) \<subseteq> {e. Next e \<le> now}" unfolding r by auto
  then have 4: "filter (\<lambda>e. After (Next e) now) (run Read now) = []"
    by (auto simp: After_def filter_empty_conv)
  show ?thesis using 1 2 3 4 unfolding a by blast
qed

text \<open>
  Claim C10. \<open>Stop\<close> on a scheduler that is not running returns the scheduler as it is
  (nothing is sent on the stop channel, no field changes), and a second \<open>Stop\<close> right
  after a first one changes nothing: the state, and so the number of values sent on
  the channel, is that after the first \<open>Stop\<close>.
\<close>

theorem Stop_idempotent:
  "Stop_scheduler (r\<lparr>running := False\<rparr>) = r\<lparr>running := False\<rparr>
   \<and> running (Stop_scheduler r) = False
   \<and> Stop_scheduler (Stop_scheduler r) = Stop_scheduler r
   \<and> stop (Stop_scheduler (Stop_scheduler r)) = stop (Stop_scheduler r)"
  by (simp add: Stop_scheduler_def Let_def split: option.splits)


chapter \<open>The history store\<close>

section \<open>Bytes, errors and the file system\<close>

text \<open>
  Go strings and byte slices are lists of bytes (\<open>string\<close> is \<open>char list\<close>, a \<open>char\<close> is
  eight bits). Lengths and offsets count bytes, as Go's \<open>len\<close> does.
\<close>

definition LF :: char where
  "LF = CHR 0x0A"

definition CR :: char where
  "CR = CHR 0x0D"

text \<open>
  Errors are values. \<open>EOF\<close> is \<open>io.EOF\<close> (the error the specification calls Empty when
  \<open>ParseStatusFile\<close> returns it), \<open>ErrBufferFull\<close> is \<open>bufio.ErrBufferFull\<close>, the
  \<open>persistence.Err...\<close> sentinels keep their names, \<open>Errorf m e\<close> is
  \<open>fmt.Errorf(m + ": %w", e)\<close> and \<open>ErrorNew m\<close> an error that wraps nothing. \<open>PathError\<close>
  stands for the errors of the operating system (\<open>os.Open\<close> of a missing file and so on).
\<close>

datatype error =
    EOF
  | ErrBufferFull
  | ErrWriterOpen
  | ErrNotOpen
  | ErrRequestIDNotFound
  | ErrNoStatusDataToday
  | ErrNoStatusData
  | ErrConflict
  | ErrFileIsCompacted
  | ErrBadPattern
  | PathError string string
  | ErrorNew string
  | Errorf string error

text \<open>\<open>errors.Is\<close>: the error itself or an error it wraps.\<close>

fun error_is :: "error \<Rightarrow> error \<Rightarrow> bool" where
  "error_is (Errorf m e) target = (Errorf m e = target \<or> error_is e target)"
| "error_is e target = (e = target)"

text \<open>
  The file system: the regular files with their contents (an association list read with
  \<open>map_of\<close>) and the directories. Paths are the keys, as strings. The root and the
  current directory always exist.
\<close>

record filesys =
  files :: "(string \<times> string) list"
  dirs :: "string list"

definition readFile :: "filesys \<Rightarrow> string \<Rightarrow> string option" where
  "readFile fs p = map_of (files fs) p"

definition isDir :: "filesys \<Rightarrow> string \<Rightarrow> bool" where
  "isDir fs p = (p \<in> set (dirs fs) \<or> p = ''/'' \<or> p = ''.'')"

section \<open>Reading lines: \<open>bufio.Reader\<close> and \<open>readLineFrom\<close>\<close>

text \<open>
  \<open>readLineFrom\<close> seeks to the offset and wraps the file in a fresh \<open>bufio.Reader\<close>, whose
  buffer holds \<open>defaultBufSize\<close> bytes. The reader is modelled by the input it has not yet
  returned. \<open>ReadSlice\<close> with the delimiter LF looks for the delimiter in the buffer, which
  it fills from the file as far as it can: it returns the bytes up to and including the
  first LF when the first \<open>defaultBufSize\<close> bytes hold one; else all the remaining bytes
  with \<open>io.EOF\<close> when they are fewer than the buffer holds; else the full buffer with
  \<open>ErrBufferFull\<close>. The triple is the line, the error and the input left.
\<close>

definition defaultBufSize :: nat where
  "defaultBufSize = 4096"

definition ReadSlice :: "string \<Rightarrow> string \<times> error option \<times> string" where
  "ReadSlice s =
     (let buf = take defaultBufSize s in
      if LF \<in> set buf then
        (let line = takeWhile (\<lambda>c. c \<noteq> LF) buf @ [LF] in (line, None, drop (length line) s))
      else if length s < defaultBufSize then (s, Some EOF, [])
      else (buf, Some ErrBufferFull, drop defaultBufSize s))"

text \<open>
  \<open>ReadLine\<close>: on \<open>ErrBufferFull\<close> the buffer is returned as a prefix of the line
  (\<open>isPrefix\<close>), a CR at its end being put back into the input; an empty line with an error
  returns the error; otherwise the error is dropped and the end of line (LF, or CR LF) is cut
  off. The result is \<open>(line, isPrefix, err)\<close> and the input left.
\<close>

definition ReadLine :: "string \<Rightarrow> (string \<times> bool \<times> error option) \<times> string" where
  "ReadLine s =
     (case ReadSlice s of (line, err, rest) \<Rightarrow>
        if err = Some ErrBufferFull then
          (if length line > 0 \<and> last line = CR
           then ((butlast line, True, None), CR # rest)
           else ((line, True, None), rest))
        else if length line = 0 then (([], False, err), rest)
        else if last line = LF then
          (let drp = (if length line > 1 \<and> line ! (length line - 2) = CR then 2 else 1)
           in ((take (length line - drp) line, False, None), rest))
        else ((line, False, None), rest))"

lemma ReadLine_isPrefix_shorter:
  "ReadLine s = ((b, True, err), rest) \<Longrightarrow> length rest < length s"
  by (auto simp: ReadLine_def ReadSlice_def Let_def defaultBufSize_def
      split: if_splits prod.splits)

text \<open>
  The loop of \<open>readLineFrom\<close>: it appends what \<open>ReadLine\<close> returns until a call is not a
  prefix; on an error it returns what it has together with the error.
\<close>

function readLineLoop :: "string \<Rightarrow> string \<Rightarrow> string \<times> error option" where
  "readLineLoop s ret =
     (case ReadLine s of ((b, isPrefix, err), rest) \<Rightarrow>
        if err \<noteq> None then (ret, err)
        else if \<not> isPrefix then (ret @ b, None)
        else readLineLoop rest (ret @ b))"
  by pat_completeness auto
termination
  by (relation "measure (\<lambda>(s, ret). length s)") (auto dest: ReadLine_isPrefix_shorter [OF sym])

declare readLineLoop.simps [simp del]

definition readLineFrom :: "string \<Rightarrow> nat \<Rightarrow> string \<times> error option" where
  "readLineFrom content offset = readLineLoop (drop offset content) []"

section \<open>\<open>ParseStatusFile\<close>\<close>

lemma readLineLoop_no_error_nonempty:
  "readLineLoop s ret = (line, None) \<Longrightarrow> s \<noteq> []"
  by (auto simp: readLineLoop.simps [of "[]"] ReadLine_def ReadSlice_def defaultBufSize_def)

lemma readLineFrom_no_error_offset:
  "readLineFrom content offset = (line, None) \<Longrightarrow> offset < length content"
  using readLineLoop_no_error_nonempty [of "drop offset content" "[]" line]
  by (auto simp: readLineFrom_def)

text \<open>
  The loop of \<open>ParseStatusFile\<close> over the content of the opened file. \<open>StatusFromJSON\<close> is a
  parameter (package \<open>model\<close> is not among the source files): it returns the decoded status
  or fails. \<open>ret\<close> is the status kept so far (\<open>None\<close> is the nil pointer).
\<close>

function parseLoop :: "(string \<Rightarrow> 'st option) \<Rightarrow> string \<Rightarrow> nat \<Rightarrow> 'st option \<Rightarrow> error + 'st" where
  "parseLoop StatusFromJSON content offset ret =
     (case readLineFrom content offset of
        (line, Some err) \<Rightarrow>
          if err = EOF then (case ret of None \<Rightarrow> Inl err | Some st \<Rightarrow> Inr st)
          else Inl err
      | (line, None) \<Rightarrow>
          parseLoop StatusFromJSON content (offset + length line + 1)
            (if length line > 0
             then (case StatusFromJSON line of Some m \<Rightarrow> Some m | None \<Rightarrow> ret)
             else ret))"
  by pat_completeness auto
termination
  by (relation "measure (\<lambda>(d, content, offset, ret). length content - offset)")
     (auto dest!: readLineFrom_no_error_offset [OF sym])

declare parseLoop.simps [simp del]

definition ParseStatusFile :: "(string \<Rightarrow> 'st option) \<Rightarrow> filesys \<Rightarrow> string \<Rightarrow> error + 'st" where
  "ParseStatusFile StatusFromJSON fs file =
     (case readFile fs file of
        None \<Rightarrow> Inl (PathError ''open'' file)
      | Some content \<Rightarrow> parseLoop StatusFromJSON content 0 None)"

section \<open>The lines of a status file\<close>

text \<open>
  What the specification says of a status file, in its own words: the file is a sequence
  of lines, each ended by LF; a line is read without its end of line (LF, or CR LF); the
  value of the file is the fold of its lines with "use latest parseable" as the combiner,
  empty lines being skipped. \<open>lines_from\<close> splits a text into its LF-terminated lines and
  the unterminated rest (the trailing partial line), \<open>chompCR\<close> drops the CR of a CR LF.
\<close>

definition chompCR :: "string \<Rightarrow> string" where
  "chompCR l = (if l \<noteq> [] \<and> last l = CR then butlast l else l)"

fun lines_from :: "string \<Rightarrow> string \<Rightarrow> string list \<times> string" where
  "lines_from cur [] = ([], cur)"
| "lines_from cur (c # cs) =
     (if c = LF then (case lines_from [] cs of (ls, r) \<Rightarrow> (cur # ls, r))
      else lines_from (cur @ [c]) cs)"

definition file_lines :: "string \<Rightarrow> string list" where
  "file_lines s = fst (lines_from [] s)"

definition partial_tail :: "string \<Rightarrow> string" where
  "partial_tail s = snd (lines_from [] s)"

definition keep_latest :: "(string \<Rightarrow> 'st option) \<Rightarrow> string \<Rightarrow> 'st option \<Rightarrow> 'st option" where
  "keep_latest decode l acc =
     (if l = [] then acc else (case decode l of Some m \<Rightarrow> Some m | None \<Rightarrow> acc))"

definition latest_parseable :: "(string \<Rightarrow> 'st option) \<Rightarrow> string list \<Rightarrow> 'st option" where
  "latest_parseable decode ls = fold (keep_latest decode) ls None"

definition last_or_EOF :: "'st option \<Rightarrow> error + 'st" where
  "last_or_EOF ret = (case ret of None \<Rightarrow> Inl EOF | Some st \<Rightarrow> Inr st)"

text \<open>
  A JSON object padded with \<open>n\<close> spaces: \<open>n + 2\<close> bytes that \<open>json.Unmarshal\<close> decodes (to
  the zero status).
\<close>

definition padded_object :: "nat \<Rightarrow> string" where
  "padded_object n = CHR ''{'' # replicate n (CHR '' '') @ ''}''"

section \<open>Properties of \<open>readLineFrom\<close> and \<open>ParseStatusFile\<close>\<close>

lemma takeWhile_take_found:
  "x \<in> set (take n s) \<Longrightarrow> takeWhile (\<lambda>c. c \<noteq> x) (take n s) = takeWhile (\<lambda>c. c \<noteq> x) s"
  by (induction s arbitrary: n) (auto simp: take_Cons split: nat.splits)

lemma cut_line_end:
  "(let line = l @ [LF];
        drp = (if length line > 1 \<and> line ! (length line - 2) = CR then 2 else 1)
    in take (length line - drp) line) = chompCR l"
proof (cases "l = []")
  case True
  then show ?thesis by (simp add: chompCR_def)
next
  case False
  then have "(l @ [LF]) ! (length l - 1) = last l"
    by (simp add: nth_append last_conv_nth)
  with False show ?thesis
    by (auto simp: chompCR_def Let_def butlast_conv_take)
qed

lemma CR_neq_LF: "CR \<noteq> LF" by (simp add: CR_def LF_def)

lemma ReadLine_found:
  assumes "LF \<in> set (take defaultBufSize s)"
  shows "ReadLine s = ((chompCR (takeWhile (\<lambda>c. c \<noteq> LF) s), False, None),
                      drop (Suc (length (takeWhile (\<lambda>c. c \<noteq> LF) s))) s)"
proof -
  let ?l = "takeWhile (\<lambda>c. c \<noteq> LF) s"
  have rs: "ReadSlice s = (?l @ [LF], None, drop (Suc (length ?l)) s)"
    using assms by (simp add: ReadSlice_def Let_def takeWhile_take_found)
  show ?thesis
    unfolding ReadLine_def rs using cut_line_end [of ?l]
    by (simp add: Let_def)
qed

lemma ReadLine_full:
  assumes "LF \<notin> set (take defaultBufSize s)" and "defaultBufSize \<le> length s"
  shows "ReadLine s =
     (if last (take defaultBufSize s) = CR
      then ((butlast (take defaultBufSize s), True, None), CR # drop defaultBufSize s)
      else ((take defaultBufSize s, True, None), drop defaultBufSize s))"
proof -
  have rs: "ReadSlice s = (take defaultBufSize s, Some ErrBufferFull, drop defaultBufSize s)"
    using assms by (simp add: ReadSlice_def Let_def)
  have "0 < defaultBufSize" by (simp add: defaultBufSize_def)
  then have "0 < length (take defaultBufSize s)" using assms(2) by simp
  then show ?thesis unfolding ReadLine_def rs by simp
qed

lemma ReadLine_rest:
  assumes "LF \<notin> set s" and "length s < defaultBufSize"
  shows "ReadLine s = (if s = [] then (([], False, Some EOF), []) else ((s, False, None), []))"
proof -
  have "LF \<notin> set (take defaultBufSize s)" using assms(1) by (auto dest: in_set_takeD)
  then have rs: "ReadSlice s = (s, Some EOF, [])"
    using assms by (simp add: ReadSlice_def Let_def)
  have "s \<noteq> [] \<Longrightarrow> last s \<noteq> LF" using assms(1) last_in_set by metis
  then show ?thesis unfolding ReadLine_def rs by auto
qed

lemma chompCR_append:
  "ys \<noteq> [] \<Longrightarrow> chompCR (xs @ ys) = xs @ chompCR ys"
  by (simp add: chompCR_def butlast_append)

lemma chompCR_append_keep:
  "xs \<noteq> [] \<Longrightarrow> last xs \<noteq> CR \<Longrightarrow> chompCR (xs @ ys) = xs @ chompCR ys"
proof (cases "ys = []")
  case True
  assume "xs \<noteq> []" "last xs \<noteq> CR"
  then show ?thesis using True by (simp add: chompCR_def)
next
  case False
  then show ?thesis by (simp add: chompCR_def butlast_append)
qed

lemma takeWhile_split_at:
  "x \<notin> set (take n s) \<Longrightarrow>
   takeWhile (\<lambda>c. c \<noteq> x) s = take n s @ takeWhile (\<lambda>c. c \<noteq> x) (drop n s)"
proof -
  assume a: "x \<notin> set (take n s)"
  have "takeWhile (\<lambda>c. c \<noteq> x) (take n s @ drop n s)
        = take n s @ takeWhile (\<lambda>c. c \<noteq> x) (drop n s)"
    by (rule takeWhile_append2) (use a in auto)
  then show ?thesis by simp
qed

lemma bufsize_pos: "0 < defaultBufSize" by (simp add: defaultBufSize_def)

lemma bufsize_gt1: "1 < defaultBufSize" by (simp add: defaultBufSize_def)

lemma readLineLoop_found:
  "LF \<in> set (take defaultBufSize s) \<Longrightarrow>
   readLineLoop s ret = (ret @ chompCR (takeWhile (\<lambda>c. c \<noteq> LF) s), None)"
  by (subst readLineLoop.simps) (simp add: ReadLine_found)

lemma readLineLoop_full_cr:
  assumes "LF \<notin> set (take defaultBufSize s)" and "defaultBufSize \<le> length s"
    and "last (take defaultBufSize s) = CR"
  shows "readLineLoop s ret
         = readLineLoop (CR # drop defaultBufSize s) (ret @ butlast (take defaultBufSize s))"
  by (subst readLineLoop.simps) (simp add: ReadLine_full [OF assms(1,2)] assms(3))

lemma readLineLoop_full_nocr:
  assumes "LF \<notin> set (take defaultBufSize s)" and "defaultBufSize \<le> length s"
    and "last (take defaultBufSize s) \<noteq> CR"
  shows "readLineLoop s ret = readLineLoop (drop defaultBufSize s) (ret @ take defaultBufSize s)"
  by (subst readLineLoop.simps) (simp add: ReadLine_full [OF assms(1,2)] assms(3))

lemma readLineLoop_rest:
  assumes "LF \<notin> set s" and "length s < defaultBufSize"
  shows "readLineLoop s ret = (if s = [] then (ret, Some EOF) else (ret @ s, None))"
  by (subst readLineLoop.simps) (simp add: ReadLine_rest [OF assms])

lemma butlast_snoc_CR:
  "xs \<noteq> [] \<Longrightarrow> last xs = CR \<Longrightarrow> butlast xs @ CR # ys = xs @ ys"
  by (induction xs) auto

lemma readLineLoop_terminated:
  "LF \<in> set s \<Longrightarrow> readLineLoop s ret = (ret @ chompCR (takeWhile (\<lambda>c. c \<noteq> LF) s), None)"
proof (induction "length s" arbitrary: s ret rule: less_induct)
  case less
  let ?N = defaultBufSize
  let ?buf = "take ?N s"
  let ?tw = "takeWhile (\<lambda>c. c \<noteq> LF) (drop ?N s)"
  show ?case
  proof (cases "LF \<in> set ?buf")
    case True
    then show ?thesis by (rule readLineLoop_found)
  next
    case False
    have len: "?N \<le> length s"
    proof (rule ccontr)
      assume "\<not> ?N \<le> length s"
      then have "?buf = s" by simp
      with False less.prems show False by simp
    qed
    have bne: "?buf \<noteq> []" using len bufsize_pos by auto
    have inrest: "LF \<in> set (drop ?N s)"
    proof -
      have "set s = set ?buf \<union> set (drop ?N s)"
        using set_append [of ?buf "drop ?N s"] by simp
      then show ?thesis using False less.prems by blast
    qed
    have tw: "takeWhile (\<lambda>c. c \<noteq> LF) s = ?buf @ ?tw"
      by (rule takeWhile_split_at [OF False])
    show ?thesis
    proof (cases "last ?buf = CR")
      case True
      have shorter: "length (CR # drop ?N s) < length s" using len bufsize_gt1 by simp
      have in2: "LF \<in> set (CR # drop ?N s)" using inrest by simp
      have "readLineLoop s ret = readLineLoop (CR # drop ?N s) (ret @ butlast ?buf)"
        by (rule readLineLoop_full_cr [OF False len True])
      also have "\<dots> = ((ret @ butlast ?buf) @ chompCR (takeWhile (\<lambda>c. c \<noteq> LF) (CR # drop ?N s)), None)"
        by (rule less.hyps [OF shorter in2])
      also have "takeWhile (\<lambda>c. c \<noteq> LF) (CR # drop ?N s) = CR # ?tw"
        using CR_neq_LF by simp
      also have "(ret @ butlast ?buf) @ chompCR (CR # ?tw) = ret @ chompCR (butlast ?buf @ CR # ?tw)"
        by (simp add: chompCR_append)
      also have "butlast ?buf @ CR # ?tw = ?buf @ ?tw"
        by (rule butlast_snoc_CR [OF bne True])
      finally show ?thesis unfolding tw .
    next
      case notcr: False
      have shorter: "length (drop ?N s) < length s" using len bufsize_pos by simp
      have "readLineLoop s ret = readLineLoop (drop ?N s) (ret @ ?buf)"
        by (rule readLineLoop_full_nocr [OF False len notcr])
      also have "\<dots> = ((ret @ ?buf) @ chompCR ?tw, None)"
        by (rule less.hyps [OF shorter inrest])
      also have "(ret @ ?buf) @ chompCR ?tw = ret @ chompCR (?buf @ ?tw)"
        by (simp add: chompCR_append_keep [OF bne notcr])
      finally show ?thesis unfolding tw .
    qed
  qed
qed

lemma readLineLoop_unterminated:
  "LF \<notin> set s \<Longrightarrow>
   readLineLoop s ret = (ret @ s, None) \<and> s \<noteq> [] \<or> (\<exists>x. readLineLoop s ret = (x, Some EOF))"
proof (induction "length s" arbitrary: s ret rule: less_induct)
  case less
  let ?N = defaultBufSize
  let ?buf = "take ?N s"
  have nobuf: "LF \<notin> set ?buf" using less.prems by (auto dest: in_set_takeD)
  show ?case
  proof (cases "length s < ?N")
    case True
    show ?thesis unfolding readLineLoop_rest [OF less.prems True] by simp
  next
    case False
    then have len: "?N \<le> length s" by simp
    have bne: "?buf \<noteq> []" using len bufsize_pos by auto
    have sne: "s \<noteq> []" using bne by auto
    have norest: "LF \<notin> set (drop ?N s)" using less.prems by (auto dest: in_set_dropD)
    show ?thesis
    proof (cases "last ?buf = CR")
      case True
      have shorter: "length (CR # drop ?N s) < length s" using len bufsize_gt1 by simp
      have eq: "(ret @ butlast ?buf) @ CR # drop ?N s = ret @ s"
        using butlast_snoc_CR [OF bne True, of "drop ?N s"] by simp
      have no2: "LF \<notin> set (CR # drop ?N s)" using norest CR_neq_LF by auto
      show ?thesis
        unfolding readLineLoop_full_cr [OF nobuf len True]
        using less.hyps [OF shorter no2, of "ret @ butlast ?buf"] sne unfolding eq by blast
    next
      case notcr: False
      have shorter: "length (drop ?N s) < length s" using len bufsize_pos by simp
      have eq: "(ret @ ?buf) @ drop ?N s = ret @ s" by simp
      show ?thesis
        unfolding readLineLoop_full_nocr [OF nobuf len notcr]
        using less.hyps [OF shorter norest, of "ret @ ?buf"] sne unfolding eq by blast
    qed
  qed
qed

lemma readLineLoop_full_buffer:
  assumes "length s = defaultBufSize" and "LF \<notin> set s" and "last s \<noteq> CR"
  shows "readLineLoop s [] = (s, Some EOF)"
proof -
  have nobuf: "LF \<notin> set (take defaultBufSize s)" using assms by simp
  have len: "defaultBufSize \<le> length s" using assms by simp
  have notcr: "last (take defaultBufSize s) \<noteq> CR" using assms by simp
  have "readLineLoop s [] = readLineLoop [] s"
    using readLineLoop_full_nocr [OF nobuf len notcr, of "[]"] assms(1) by simp
  also have "\<dots> = (s, Some EOF)"
    using readLineLoop_rest [of "[]" s] bufsize_pos by simp
  finally show ?thesis .
qed

lemma lines_from_line:
  "LF \<notin> set l \<Longrightarrow>
   lines_from cur (l @ LF # s) = ((cur @ l) # fst (lines_from [] s), snd (lines_from [] s))"
  by (induction l arbitrary: cur) (auto split: prod.splits)

lemma lines_from_tail:
  "LF \<notin> set l \<Longrightarrow> lines_from cur l = ([], cur @ l)"
  by (induction l arbitrary: cur) auto

lemma split_at_LF:
  "LF \<in> set s \<Longrightarrow>
   s = takeWhile (\<lambda>c. c \<noteq> LF) s @ LF # drop (Suc (length (takeWhile (\<lambda>c. c \<noteq> LF) s))) s"
  by (induction s) auto

lemma file_lines_line:
  "LF \<in> set s \<Longrightarrow>
   file_lines s = takeWhile (\<lambda>c. c \<noteq> LF) s
                  # file_lines (drop (Suc (length (takeWhile (\<lambda>c. c \<noteq> LF) s))) s)"
  unfolding file_lines_def
  by (subst split_at_LF, assumption, subst lines_from_line) (auto dest: set_takeWhileD)

lemma partial_tail_line:
  "LF \<in> set s \<Longrightarrow>
   partial_tail s = partial_tail (drop (Suc (length (takeWhile (\<lambda>c. c \<noteq> LF) s))) s)"
  unfolding partial_tail_def
  by (subst split_at_LF, assumption, subst lines_from_line) (auto dest: set_takeWhileD)

lemma parseLoop_drop:
  "parseLoop d content offset ret = parseLoop d (drop offset content) 0 ret"
proof (induction "length content - offset" arbitrary: content offset ret rule: less_induct)
  case less
  obtain line err where r: "readLineFrom content offset = (line, err)" by (cases "readLineFrom content offset")
  then have r0: "readLineFrom (drop offset content) 0 = (line, err)"
    by (simp add: readLineFrom_def)
  show ?case
  proof (cases err)
    case (Some e)
    show ?thesis
      by (subst parseLoop.simps, subst (2) parseLoop.simps) (simp add: r r0 Some)
  next
    case None
    have lt: "offset < length content" using r None readLineFrom_no_error_offset by blast
    let ?ret = "if length line > 0 then (case d line of Some m \<Rightarrow> Some m | None \<Rightarrow> ret) else ret"
    have "parseLoop d content offset ret = parseLoop d content (offset + length line + 1) ?ret"
      by (subst parseLoop.simps) (simp add: r None)
    also have "\<dots> = parseLoop d (drop (offset + length line + 1) content) 0 ?ret"
      by (rule less.hyps) (use lt in simp)
    also have "\<dots> = parseLoop d (drop (length line + 1) (drop offset content)) 0 ?ret"
      by (simp add: add.commute add.left_commute)
    also have "\<dots> = parseLoop d (drop offset content) (length line + 1) ?ret"
      by (rule less.hyps [symmetric]) (use lt in simp)
    also have "\<dots> = parseLoop d (drop offset content) 0 ret"
      by (subst (2) parseLoop.simps) (simp add: r0 None)
    finally show ?thesis .
  qed
qed

lemma parseLoop_EOF:
  "readLineLoop s [] = (x, Some EOF) \<Longrightarrow> parseLoop d s 0 ret = last_or_EOF ret"
  by (subst parseLoop.simps) (simp add: readLineFrom_def last_or_EOF_def)

lemma parseLoop_line:
  "readLineLoop s [] = (line, None) \<Longrightarrow>
   parseLoop d s 0 ret = parseLoop d (drop (Suc (length line)) s) 0 (keep_latest d line ret)"
  by (subst parseLoop.simps, subst parseLoop_drop)
     (simp add: readLineFrom_def keep_latest_def)

lemma parseLoop_lines:
  "partial_tail s = [] \<or> d (partial_tail s) = None \<Longrightarrow>
   parseLoop d s 0 ret = last_or_EOF (fold (keep_latest d) (map chompCR (file_lines s)) ret)"
proof (induction "length s" arbitrary: s ret rule: less_induct)
  case less
  let ?l = "takeWhile (\<lambda>c. c \<noteq> LF) s"
  let ?s' = "drop (Suc (length ?l)) s"
  show ?case
  proof (cases "LF \<in> set s")
    case True
    have rl: "readLineLoop s [] = (chompCR ?l, None)"
      using readLineLoop_terminated [OF True, of "[]"] by simp
    have fl: "file_lines s = ?l # file_lines ?s'" by (rule file_lines_line [OF True])
    have pt: "partial_tail ?s' = partial_tail s" by (rule partial_tail_line [OF True, symmetric])
    have s_eq: "s = ?l @ LF # ?s'" by (rule split_at_LF [OF True])
    have tail_ok: "partial_tail ?s' = [] \<or> d (partial_tail ?s') = None"
      using less.prems pt by simp
    have step: "parseLoop d s 0 ret
                = parseLoop d (drop (Suc (length (chompCR ?l))) s) 0 (keep_latest d (chompCR ?l) ret)"
      by (rule parseLoop_line [OF rl])
    show ?thesis
    proof (cases "?l \<noteq> [] \<and> last ?l = CR")
      case False
      then have c: "chompCR ?l = ?l" by (auto simp: chompCR_def)
      have sh: "length ?s' < length s" using True by (cases s) auto
      show ?thesis
        unfolding step c using less.hyps [OF sh tail_ok] by (simp add: fl c)
    next
      case cr: True
      then have c: "chompCR ?l = butlast ?l" by (simp add: chompCR_def)
      have ll: "Suc (length (butlast ?l)) = length ?l" using cr by simp
      have "drop (length ?l) s = drop (length ?l) (?l @ LF # ?s')" using s_eq by simp
      then have nxt: "drop (length ?l) s = LF # ?s'" by simp
      have "length (?l @ LF # ?s') = length s" using s_eq by simp
      then have tot: "length ?l + Suc (length ?s') = length s"
        unfolding length_append length_Cons .
      have lpos: "0 < length ?l" using cr by simp
      have sh: "length (LF # ?s') < length s"
        unfolding length_Cons using tot lpos by linarith
      have fl2: "file_lines (LF # ?s') = [] # file_lines ?s'"
        by (simp add: file_lines_def split: prod.splits)
      have pt2: "partial_tail (LF # ?s') = partial_tail ?s'"
        by (simp add: partial_tail_def split: prod.splits)
      have tail2: "partial_tail (LF # ?s') = [] \<or> d (partial_tail (LF # ?s')) = None"
        using tail_ok pt2 by simp
      have e0: "chompCR [] = []" by (simp add: chompCR_def)
      have k0: "keep_latest d [] r = r" for r by (simp add: keep_latest_def)
      have "parseLoop d (LF # ?s') 0 (keep_latest d (butlast ?l) ret)
            = last_or_EOF (fold (keep_latest d) (map chompCR (file_lines (LF # ?s')))
                             (keep_latest d (butlast ?l) ret))"
        by (rule less.hyps [OF sh tail2])
      also have "\<dots> = last_or_EOF (fold (keep_latest d) (map chompCR (file_lines s)) ret)"
        unfolding fl2 by (subst fl) (simp add: c e0 k0)
      finally show ?thesis
        unfolding step c ll nxt .
    qed
  next
    case False
    have fl: "file_lines s = []" and pt: "partial_tail s = s"
      using lines_from_tail [OF False, of "[]"] by (simp_all add: file_lines_def partial_tail_def)
    from readLineLoop_unterminated [OF False, of "[]"]
    show ?thesis
    proof
      assume a: "readLineLoop s [] = ([] @ s, None) \<and> s \<noteq> []"
      then have dn: "d s = None" using less.prems pt by simp
      have "parseLoop d s 0 ret = parseLoop d [] 0 (keep_latest d s ret)"
        using parseLoop_line [of s s d ret] a by simp
      also have "\<dots> = last_or_EOF (keep_latest d s ret)"
        by (rule parseLoop_EOF [of _ "[]"]) (use readLineLoop_rest [of "[]" "[]"] bufsize_pos in simp)
      finally show ?thesis using dn a by (simp add: fl keep_latest_def)
    next
      assume "\<exists>x. readLineLoop s [] = (x, Some EOF)"
      then obtain x where "readLineLoop s [] = (x, Some EOF)" ..
      then show ?thesis by (simp add: parseLoop_EOF fl)
    qed
  qed
qed

lemma ParseStatusFile_latest_line:
  assumes "readFile fs file = Some content"
    and "partial_tail content = [] \<or> StatusFromJSON (partial_tail content) = None"
  shows "ParseStatusFile StatusFromJSON fs file
         = last_or_EOF (latest_parseable StatusFromJSON (map chompCR (file_lines content)))"
  using assms(1) parseLoop_lines [of content StatusFromJSON None] assms(2)
  by (simp add: ParseStatusFile_def latest_parseable_def)

lemma padded_object_facts:
  "length (padded_object n) = n + 2" "LF \<notin> set (padded_object n)"
  "last (padded_object n) \<noteq> CR" "padded_object n \<noteq> []"
  by (auto simp: padded_object_def LF_def CR_def)

text \<open>
  Claim C1. The claim holds for every status file whose trailing partial line, if there is
  one, does not decode (lemma \<open>ParseStatusFile_latest_line\<close>: the status of the last
  decodable line, and \<open>io.EOF\<close> when no line decodes). It fails for a decodable last line
  that has no LF and fills the reader's buffer exactly: \<open>readLineFrom\<close> returns such a line
  together with \<open>io.EOF\<close>, and \<open>ParseStatusFile\<close> drops the line it got with the error. A
  file that holds one JSON object of 4096 bytes and no LF yields \<open>io.EOF\<close>, whatever the
  decoder makes of the object, while the same object one byte shorter is decoded.
\<close>

theorem ParseStatusFile_drops_full_buffer_line:
  "ParseStatusFile StatusFromJSON \<lparr>files = [(''s.dat'', padded_object 4094)], dirs = []\<rparr> ''s.dat''
     = Inl EOF
   \<and> ParseStatusFile StatusFromJSON \<lparr>files = [(''s.dat'', padded_object 4093)], dirs = []\<rparr> ''s.dat''
     = last_or_EOF (StatusFromJSON (padded_object 4093))"
proof -
  have e: "readLineLoop [] [] = ([], Some EOF)"
    using readLineLoop_rest [of "[]" "[]"] bufsize_pos by simp
  have "readLineLoop (padded_object 4094) [] = (padded_object 4094, Some EOF)"
    by (rule readLineLoop_full_buffer) (simp_all add: padded_object_facts defaultBufSize_def)
  then have 1: "parseLoop StatusFromJSON (padded_object 4094) 0 None = Inl EOF"
    by (simp add: parseLoop_EOF last_or_EOF_def)
  have "readLineLoop (padded_object 4093) [] = (padded_object 4093, None)"
    using readLineLoop_rest [of "padded_object 4093" "[]"]
    by (simp add: padded_object_facts defaultBufSize_def)
  then have "parseLoop StatusFromJSON (padded_object 4093) 0 None
     = parseLoop StatusFromJSON [] 0 (keep_latest StatusFromJSON (padded_object 4093) None)"
    using parseLoop_line [of "padded_object 4093" "padded_object 4093" StatusFromJSON None]
    by simp
  also have "\<dots> = last_or_EOF (keep_latest StatusFromJSON (padded_object 4093) None)"
    by (rule parseLoop_EOF [OF e])
  also have "\<dots> = last_or_EOF (StatusFromJSON (padded_object 4093))"
    by (simp add: keep_latest_def padded_object_facts split: option.splits)
  finally have 2: "parseLoop StatusFromJSON (padded_object 4093) 0 None
     = last_or_EOF (StatusFromJSON (padded_object 4093))" .
  show ?thesis using 1 2 by (simp add: ParseStatusFile_def readFile_def)
qed

section \<open>Strings and paths: packages \<open>strings\<close> and \<open>path/filepath\<close>\<close>

definition Separator :: char where
  "Separator = CHR ''/''"

definition HasPrefix :: "string \<Rightarrow> string \<Rightarrow> bool" where
  "HasPrefix s pre = (take (length pre) s = pre)"

definition HasSuffix :: "string \<Rightarrow> string \<Rightarrow> bool" where
  "HasSuffix s suf = (length suf \<le> length s \<and> drop (length s - length suf) s = suf)"

definition TrimSuffix :: "string \<Rightarrow> string \<Rightarrow> string" where
  "TrimSuffix s suf = (if HasSuffix s suf then take (length s - length suf) s else s)"

definition TruncString :: "string \<Rightarrow> nat \<Rightarrow> string" where
  "TruncString val mx = (if length val > mx then take mx val else val)"

fun split_sep :: "string \<Rightarrow> string list" where
  "split_sep [] = [[]]"
| "split_sep (c # cs) =
     (if c = Separator then [] # split_sep cs
      else (case split_sep cs of [] \<Rightarrow> [[c]] | x # xs \<Rightarrow> (c # x) # xs))"

fun join_sep :: "string list \<Rightarrow> string" where
  "join_sep [] = []"
| "join_sep [x] = x"
| "join_sep (x # y # ys) = x @ Separator # join_sep (y # ys)"

definition clean_step :: "bool \<Rightarrow> string list \<Rightarrow> string \<Rightarrow> string list" where
  "clean_step rooted st c =
     (if c = [] \<or> c = ''.'' then st
      else if c = ''..'' then
        (if st \<noteq> [] \<and> last st \<noteq> ''..'' then butlast st
         else if rooted then st
         else st @ [c])
      else st @ [c])"

definition Clean :: "string \<Rightarrow> string" where
  "Clean path =
     (if path = [] then ''.''
      else
        let rooted = (hd path = Separator);
            out = join_sep (foldl (clean_step rooted) [] (split_sep path))
        in if rooted then Separator # out
           else if out = [] then ''.'' else out)"

fun Join :: "string list \<Rightarrow> string" where
  "Join [] = []"
| "Join (e # es) = (if e = [] then Join es else Clean (join_sep (e # es)))"

definition last_elem :: "string \<Rightarrow> string" where
  "last_elem path = rev (takeWhile (\<lambda>c. c \<noteq> Separator) (rev path))"

definition Dir :: "string \<Rightarrow> string" where
  "Dir path = Clean (take (length path - length (last_elem path)) path)"

definition Base :: "string \<Rightarrow> string" where
  "Base path =
     (if path = [] then ''.''
      else
        let p = rev (dropWhile (\<lambda>c. c = Separator) (rev path));
            p = last_elem p
        in if p = [] then [Separator] else p)"

definition Ext :: "string \<Rightarrow> string" where
  "Ext path =
     (let e = last_elem path in
      if CHR ''.'' \<in> set e then CHR ''.'' # rev (takeWhile (\<lambda>c. c \<noteq> CHR ''.'') (rev e))
      else [])"

section \<open>Names of DAGs and of files\<close>

definition lower_ascii :: "char \<Rightarrow> char" where
  "lower_ascii c =
     (if CHR ''A'' \<le> c \<and> c \<le> CHR ''Z'' then char_of (of_char c + (32::nat)) else c)"

definition is_digit :: "char \<Rightarrow> bool" where
  "is_digit c = (CHR ''0'' \<le> c \<and> c \<le> CHR ''9'')"

text \<open>\<open>filenameReservedRegex\<close>: the class \<open>[<>:"/\\|?*\x00-\x1F]\<close>.\<close>

definition filenameReserved :: "char \<Rightarrow> bool" where
  "filenameReserved c =
     (c \<in> set ''<>:/|?*'' \<or> c = CHR 0x22 \<or> c = CHR 0x5C \<or> of_char c < (32::nat))"

text \<open>
  \<open>filenameReservedWindowsNamesRegex\<close>: \<open>(?i)^(con|prn|aux|nul|com[0-9]|lpt[0-9])$\<close>, a
  match of the whole string without regard to case.
\<close>

definition filenameReservedWindowsNames :: "string \<Rightarrow> bool" where
  "filenameReservedWindowsNames s =
     (let l = map lower_ascii s in
      l \<in> set [''con'', ''prn'', ''aux'', ''nul'']
      \<or> (length l = 4 \<and> take 3 l \<in> set [''com'', ''lpt''] \<and> is_digit (l ! 3)))"

definition ValidFilename :: "string \<Rightarrow> string \<Rightarrow> string" where
  "ValidFilename str replacement =
     (let s = concat (map (\<lambda>c. if filenameReserved c then replacement else [c]) str);
          s = (if filenameReservedWindowsNames s then replacement else s)
      in concat (map (\<lambda>c. if c = CHR '' '' then replacement else [c]) s))"

text \<open>
  \<open>normalizedID\<close> passes the file name without its extension to \<open>util.ValidFilename\<close>.
  The \<open>ValidFilename\<close> among the sources takes the replacement as a second argument, the
  call in \<open>normalizedID\<close> gives none: the replacement is taken to be the underscore.
\<close>

definition normalizedID :: "string \<Rightarrow> string" where
  "normalizedID dagID = ValidFilename (TrimSuffix (Base dagID) (Ext dagID)) ''_''"

record datetime =
  Year :: nat
  Month :: nat
  Day :: nat
  Hour :: nat
  Minute :: nat
  Sec :: nat
  Milli :: nat

definition digit :: "nat \<Rightarrow> char" where
  "digit n = char_of (48 + n mod 10)"

definition pad2 :: "nat \<Rightarrow> string" where
  "pad2 n = [digit (n div 10), digit n]"

definition pad3 :: "nat \<Rightarrow> string" where
  "pad3 n = [digit (n div 100), digit (n div 10), digit n]"

text \<open>
  The year is printed with four digits at least (\<open>appendInt(b, year, 4)\<close>): a year from
  10000 on takes as many digits as it has.
\<close>

fun decimal :: "nat \<Rightarrow> string" where
  "decimal n = (if n < 10 then [digit n] else decimal (n div 10) @ [digit n])"

declare decimal.simps [simp del]

definition pad4 :: "nat \<Rightarrow> string" where
  "pad4 n =
     (if n < 10000 then [digit (n div 1000), digit (n div 100), digit (n div 10), digit n]
      else decimal n)"

definition Format_dateTime :: "datetime \<Rightarrow> string" where
  "Format_dateTime t =
     pad4 (Year t) @ pad2 (Month t) @ pad2 (Day t) @ ''.'' @ pad2 (Hour t) @ '':''
     @ pad2 (Minute t) @ '':'' @ pad2 (Sec t) @ ''.'' @ pad3 (Milli t)"

definition Format_date :: "datetime \<Rightarrow> string" where
  "Format_date t = pad4 (Year t) @ pad2 (Month t) @ pad2 (Day t)"

definition requestIDLenSafe :: nat where
  "requestIDLenSafe = 8"

definition compactedFileSuffix :: string where
  "compactedFileSuffix = ''_c.dat''"

definition craftCompactedFileName :: "string \<Rightarrow> error + string" where
  "craftCompactedFileName file =
     (if HasSuffix file compactedFileSuffix then Inl ErrFileIsCompacted
      else Inr (Join [Dir file, TrimSuffix (Base file) (Ext file) @ compactedFileSuffix]))"

definition craftIndexDataDir :: "string \<Rightarrow> string \<Rightarrow> string" where
  "craftIndexDataDir baseDir dagID = Join [baseDir, ''index'', normalizedID dagID]"

definition craftStatusDataDir :: "string \<Rightarrow> datetime \<Rightarrow> string" where
  "craftStatusDataDir baseDir t =
     Join [baseDir, ''status'', pad4 (Year t), pad2 (Month t), pad2 (Day t)]"

definition craftStatusFile :: "string \<Rightarrow> string \<Rightarrow> datetime \<Rightarrow> string" where
  "craftStatusFile dagID requestID t =
     normalizedID dagID @ ''.'' @ Format_dateTime t @ ''.''
     @ TruncString requestID requestIDLenSafe @ ''.dat''"

section \<open>Index file names\<close>

text \<open>
  \<open>indexFileRegExp\<close> is
  \<open>(\d{4})(\d{2})(\d{2})\.\d{2}:\d{2}:\d{2}.\d{3}\.([^.]+)\.dat\<close>. \<open>match_here\<close> matches it at
  the start of a string and returns the four groups; \<open>FindStringSubmatch\<close> takes the
  leftmost match. The dot that is not escaped matches one rune other than LF;
  \<open>rune_width\<close> is the number of bytes \<open>utf8.DecodeRune\<close> takes.
\<close>

definition cont :: "string \<Rightarrow> nat \<Rightarrow> nat \<Rightarrow> nat \<Rightarrow> bool" where
  "cont s i lo hi = (i < length s \<and> lo \<le> of_char (s ! i) \<and> of_char (s ! i) \<le> hi)"

definition rune_width :: "string \<Rightarrow> nat" where
  "rune_width s =
     (let b = (of_char (hd s) :: nat) in
      if b < 0x80 then 1
      else if 0xC2 \<le> b \<and> b \<le> 0xDF then (if cont s 1 0x80 0xBF then 2 else 1)
      else if b = 0xE0 then (if cont s 1 0xA0 0xBF \<and> cont s 2 0x80 0xBF then 3 else 1)
      else if b = 0xED then (if cont s 1 0x80 0x9F \<and> cont s 2 0x80 0xBF then 3 else 1)
      else if 0xE1 \<le> b \<and> b \<le> 0xEF then
        (if cont s 1 0x80 0xBF \<and> cont s 2 0x80 0xBF then 3 else 1)
      else if b = 0xF0 then
        (if cont s 1 0x90 0xBF \<and> cont s 2 0x80 0xBF \<and> cont s 3 0x80 0xBF then 4 else 1)
      else if 0xF1 \<le> b \<and> b \<le> 0xF3 then
        (if cont s 1 0x80 0xBF \<and> cont s 2 0x80 0xBF \<and> cont s 3 0x80 0xBF then 4 else 1)
      else if b = 0xF4 then
        (if cont s 1 0x80 0x8F \<and> cont s 2 0x80 0xBF \<and> cont s 3 0x80 0xBF then 4 else 1)
      else 1)"

definition digitsN :: "nat \<Rightarrow> string \<Rightarrow> (string \<times> string) option" where
  "digitsN n s =
     (if n \<le> length s \<and> list_all is_digit (take n s) then Some (take n s, drop n s) else None)"

definition lit :: "char \<Rightarrow> string \<Rightarrow> string option" where
  "lit c s = (case s of [] \<Rightarrow> None | x # xs \<Rightarrow> if x = c then Some xs else None)"

definition anychar :: "string \<Rightarrow> string option" where
  "anychar s = (if s = [] \<or> hd s = LF then None else Some (drop (rune_width s) s))"

definition match_here :: "string \<Rightarrow> (string \<times> string \<times> string \<times> string) option" where
  "match_here s = do {
     (y, s) \<leftarrow> digitsN 4 s;
     (m, s) \<leftarrow> digitsN 2 s;
     (d, s) \<leftarrow> digitsN 2 s;
     s \<leftarrow> lit (CHR ''.'') s;
     (_, s) \<leftarrow> digitsN 2 s;
     s \<leftarrow> lit (CHR '':'') s;
     (_, s) \<leftarrow> digitsN 2 s;
     s \<leftarrow> lit (CHR '':'') s;
     (_, s) \<leftarrow> digitsN 2 s;
     s \<leftarrow> anychar s;
     (_, s) \<leftarrow> digitsN 3 s;
     s \<leftarrow> lit (CHR ''.'') s;
     let r = takeWhile (\<lambda>c. c \<noteq> CHR ''.'') s;
     if r \<noteq> [] \<and> HasPrefix (drop (length r) s) ''.dat'' then Some (y, m, d, r) else None
   }"

fun FindStringSubmatch :: "string \<Rightarrow> (string \<times> string \<times> string \<times> string) option" where
  "FindStringSubmatch [] = match_here []"
| "FindStringSubmatch (c # cs) =
     (case match_here (c # cs) of Some m \<Rightarrow> Some m | None \<Rightarrow> FindStringSubmatch cs)"

record indexFileInfo =
  filePath :: string
  year :: string
  month :: string
  date :: string
  reqId :: string

definition parseIndexFile :: "string \<Rightarrow> error + indexFileInfo" where
  "parseIndexFile indexFile =
     (case FindStringSubmatch indexFile of
        None \<Rightarrow> Inl (ErrorNew (''invalid index file: '' @ indexFile))
      | Some (y, m, d, r) \<Rightarrow>
          Inr \<lparr>filePath = indexFile, year = y, month = m, date = d, reqId = r\<rparr>)"

definition indexFileToStatusFilePattern :: "string \<Rightarrow> string \<Rightarrow> error + string" where
  "indexFileToStatusFilePattern baseDir indexFile =
     (case parseIndexFile indexFile of
        Inl err \<Rightarrow> Inl err
      | Inr info \<Rightarrow>
          let baseName = TrimSuffix (Base indexFile) (Ext indexFile)
          in Inr (Join [baseDir, ''status'', year info, month info, date info,
                        baseName @ ''*.dat'']))"

section \<open>The file system: operations of package \<open>os\<close>\<close>

text \<open>
  A directory is listed by the names of the files and directories directly below it;
  \<open>Readdirnames\<close> never lists the entries \<open>.\<close> and \<open>..\<close>.
\<close>

definition child_name :: "string \<Rightarrow> string \<Rightarrow> string option" where
  "child_name d p =
     (let pre = (if d = ''.'' then [] else if d = ''/'' then d else d @ ''/'');
          n = drop (length pre) p
      in if HasPrefix p pre \<and> n \<noteq> [] \<and> Separator \<notin> set n \<and> n \<noteq> ''.'' \<and> n \<noteq> ''..''
         then Some n else None)"

definition Readdirnames :: "filesys \<Rightarrow> string \<Rightarrow> string list" where
  "Readdirnames fs d = remdups (List.map_filter (child_name d) (map fst (files fs) @ dirs fs))"

text \<open>The directories on the way to a path, and the path itself (for \<open>MkdirAll\<close>).\<close>

fun ancestors_from :: "string \<Rightarrow> string \<Rightarrow> string list" where
  "ancestors_from pre [] = [pre]"
| "ancestors_from pre (c # cs) =
     (if c = Separator \<and> pre \<noteq> [] then pre # ancestors_from (pre @ [c]) cs
      else ancestors_from (pre @ [c]) cs)"

text \<open>
  \<open>os.Stat\<close> and \<open>os.Lstat\<close>. A path that leads through a regular file is refused with
  ENOTDIR; otherwise the path is found when it is a directory or a regular file, and the
  error is "not exist" (ENOENT) when it is not. \<open>stat_ok\<close> says that the call returns no
  error. \<open>pathExists\<close> (and \<open>util.FileExists\<close>) is \<open>!os.IsNotExist(err)\<close>: true also when
  the error is ENOTDIR.
\<close>

definition below_file :: "filesys \<Rightarrow> string \<Rightarrow> bool" where
  "below_file fs p = list_ex (\<lambda>a. readFile fs a \<noteq> None) (butlast (ancestors_from [] p))"

definition stat_ok :: "filesys \<Rightarrow> string \<Rightarrow> bool" where
  "stat_ok fs p = (\<not> below_file fs p \<and> (isDir fs p \<or> readFile fs p \<noteq> None))"

definition pathExists :: "filesys \<Rightarrow> string \<Rightarrow> bool" where
  "pathExists fs p = (below_file fs p \<or> isDir fs p \<or> readFile fs p \<noteq> None)"

definition MkdirAll :: "filesys \<Rightarrow> string \<Rightarrow> error + filesys" where
  "MkdirAll fs path =
     (if list_ex (\<lambda>a. readFile fs a \<noteq> None) (ancestors_from [] path)
      then Inl (PathError ''mkdir'' path)
      else Inr (fs\<lparr>dirs := dirs fs @ filter (\<lambda>a. \<not> isDir fs a)
                                          (remdups (ancestors_from [] path))\<rparr>))"

text \<open>\<open>os.Create\<close>: the file is created empty, or truncated.\<close>

definition Create :: "filesys \<Rightarrow> string \<Rightarrow> error + filesys" where
  "Create fs name =
     (if isDir fs name \<or> \<not> isDir fs (Dir name) then Inl (PathError ''open'' name)
      else Inr (fs\<lparr>files := AList.update name [] (files fs)\<rparr>))"

text \<open>\<open>util.OpenFile\<close>: \<open>os.OpenFile\<close> with \<open>O_APPEND|O_WRONLY\<close>; the file has to exist.\<close>

definition OpenFile :: "filesys \<Rightarrow> string \<Rightarrow> error + filesys" where
  "OpenFile fs file =
     (if readFile fs file = None then Inl (PathError ''open'' file) else Inr fs)"

definition CreateFile :: "filesys \<Rightarrow> string \<Rightarrow> error + filesys" where
  "CreateFile fs file = Create fs file"

definition FileExists :: "filesys \<Rightarrow> string \<Rightarrow> bool" where
  "FileExists fs file = pathExists fs file"

definition OpenOrCreateFile :: "filesys \<Rightarrow> string \<Rightarrow> error + filesys" where
  "OpenOrCreateFile fs file =
     (if FileExists fs file then OpenFile fs file else CreateFile fs file)"

text \<open>\<open>os.Remove\<close>: a file, or an empty directory.\<close>

definition Remove :: "filesys \<Rightarrow> string \<Rightarrow> error + filesys" where
  "Remove fs name =
     (if readFile fs name \<noteq> None then Inr (fs\<lparr>files := AList.delete name (files fs)\<rparr>)
      else if isDir fs name \<and> Readdirnames fs name = []
      then Inr (fs\<lparr>dirs := removeAll name (dirs fs)\<rparr>)
      else Inl (PathError ''remove'' name))"

text \<open>
  \<open>os.Rename\<close>. A path below \<open>oldpath\<close> moves with it. The new path must not lie
  below the old one, its directory has to exist; a file replaces a file, a directory
  replaces an empty directory only.
\<close>

definition reprefix :: "string \<Rightarrow> string \<Rightarrow> string \<Rightarrow> string" where
  "reprefix oldpath newpath p =
     (if p = oldpath then newpath
      else if HasPrefix p (oldpath @ ''/'') then newpath @ drop (length oldpath) p
      else p)"

definition Rename_os :: "filesys \<Rightarrow> string \<Rightarrow> string \<Rightarrow> error + filesys" where
  "Rename_os fs oldpath newpath =
     (if \<not> stat_ok fs oldpath \<or> \<not> isDir fs (Dir newpath)
         \<or> HasPrefix newpath (oldpath @ ''/'')
      then Inl (PathError ''rename'' oldpath)
      else if oldpath = newpath then Inr fs
      else if isDir fs oldpath then
        (if readFile fs newpath \<noteq> None \<or> (isDir fs newpath \<and> Readdirnames fs newpath \<noteq> [])
         then Inl (PathError ''rename'' oldpath)
         else Inr (fs\<lparr>files := map (\<lambda>(p, c). (reprefix oldpath newpath p, c)) (files fs),
                       dirs := remdups (map (reprefix oldpath newpath) (dirs fs))\<rparr>))
      else
        (if isDir fs newpath then Inl (PathError ''rename'' oldpath)
         else Inr (fs\<lparr>files := AList.update newpath (the (readFile fs oldpath))
                                   (AList.delete oldpath (files fs))\<rparr>)))"

section \<open>\<open>filepath.Match\<close> and \<open>filepath.Glob\<close>\<close>

text \<open>
  The patterns of the store are built from literal text and \<open>*\<close>. \<open>Match\<close> is modelled for
  such patterns, after the algorithm of \<open>filepath.Match\<close>: the pattern is cut into chunks
  at the stars, a chunk is matched at the current position or, after a star, at the first
  later position that does not skip a separator; the last chunk has to end the name. A
  pattern with one of the other metacharacters (\<open>?\<close>, \<open>[\<close> and the backslash) is outside
  the model: \<open>Match\<close> answers \<open>NotModelled\<close> for it.
\<close>

definition NotModelled :: "string \<Rightarrow> error" where
  "NotModelled what = ErrorNew (''not modelled: '' @ what)"

definition hasMeta :: "string \<Rightarrow> bool" where
  "hasMeta path = list_ex (\<lambda>c. c \<in> set ''*?['' \<or> c = CHR 0x5C) path"

definition scanChunk :: "string \<Rightarrow> bool \<times> string \<times> string" where
  "scanChunk pattern =
     (let p = dropWhile (\<lambda>c. c = CHR ''*'') pattern in
      (length p < length pattern,
       takeWhile (\<lambda>c. c \<noteq> CHR ''*'') p, dropWhile (\<lambda>c. c \<noteq> CHR ''*'') p))"

definition matchChunk :: "string \<Rightarrow> string \<Rightarrow> string option" where
  "matchChunk chunk s = (if HasPrefix s chunk then Some (drop (length chunk) s) else None)"

fun star_search :: "string \<Rightarrow> bool \<Rightarrow> string \<Rightarrow> string option" where
  "star_search chunk final [] = None"
| "star_search chunk final (c # cs) =
     (if c = Separator then None
      else (case matchChunk chunk cs of
              None \<Rightarrow> star_search chunk final cs
            | Some t \<Rightarrow> if final \<and> t \<noteq> [] then star_search chunk final cs else Some t))"

lemma scanChunk_shorter:
  "pattern \<noteq> [] \<Longrightarrow> (star, chunk, rest) = scanChunk pattern \<Longrightarrow> length rest < length pattern"
proof -
  assume ne: "pattern \<noteq> []" and sc: "(star, chunk, rest) = scanChunk pattern"
  let ?p = "dropWhile (\<lambda>c. c = CHR ''*'') pattern"
  have r: "rest = dropWhile (\<lambda>c. c \<noteq> CHR ''*'') ?p" using sc by (simp add: scanChunk_def Let_def)
  have 1: "length rest \<le> length ?p" unfolding r by (rule length_dropWhile_le)
  have 2: "length ?p \<le> length pattern" by (rule length_dropWhile_le)
  show ?thesis
  proof (cases "hd pattern = CHR ''*''")
    case True
    then have "length ?p < length pattern" using ne by (cases pattern) (auto simp: le_imp_less_Suc length_dropWhile_le)
    with 1 show ?thesis by simp
  next
    case False
    then have p: "?p = pattern" using ne by (cases pattern) auto
    have "length rest < length pattern" unfolding r p using False ne
      by (cases pattern) (auto simp: le_imp_less_Suc length_dropWhile_le)
    then show ?thesis .
  qed
qed

function matchLoop :: "string \<Rightarrow> string \<Rightarrow> bool" where
  "matchLoop pattern name =
     (if pattern = [] then name = []
      else
        (case scanChunk pattern of (star, chunk, rest) \<Rightarrow>
           if star \<and> chunk = [] then Separator \<notin> set name
           else
             (case matchChunk chunk name of
                Some t \<Rightarrow>
                  if t = [] \<or> rest \<noteq> [] then matchLoop rest t
                  else if star then
                    (case star_search chunk (rest = []) name of
                       None \<Rightarrow> False | Some t \<Rightarrow> matchLoop rest t)
                  else False
              | None \<Rightarrow>
                  if star then
                    (case star_search chunk (rest = []) name of
                       None \<Rightarrow> False | Some t \<Rightarrow> matchLoop rest t)
                  else False)))"
  by pat_completeness auto
termination
  by (relation "measure (\<lambda>(pattern, name). length pattern)") (auto dest: scanChunk_shorter)

declare matchLoop.simps [simp del]

definition Match :: "string \<Rightarrow> string \<Rightarrow> error + bool" where
  "Match pattern name =
     (if list_ex (\<lambda>c. c \<in> set ''?['' \<or> c = CHR 0x5C) pattern
      then Inl (NotModelled ''pattern'')
      else Inr (matchLoop pattern name))"

text \<open>
  \<open>Glob\<close>: a pattern without metacharacters matches itself when the path exists. Otherwise
  the names of the directory part that match the last element are returned, in the order
  of \<open>sort.Strings\<close>, joined to the directory. A directory part with metacharacters is
  outside the model.
\<close>

definition cleanGlobPath :: "string \<Rightarrow> string" where
  "cleanGlobPath path =
     (if path = [] then ''.'' else if path = [Separator] then path else butlast path)"

definition glob :: "filesys \<Rightarrow> string \<Rightarrow> string \<Rightarrow> string list" where
  "glob fs dir pattern =
     (if \<not> isDir fs dir then []
      else map (\<lambda>n. Join [dir, n])
             (filter (\<lambda>n. matchLoop pattern n) (sort (Readdirnames fs dir))))"

definition Glob :: "filesys \<Rightarrow> string \<Rightarrow> error + string list" where
  "Glob fs pattern =
     (case Match pattern [] of
        Inl err \<Rightarrow> Inl err
      | Inr _ \<Rightarrow>
          if \<not> hasMeta pattern then Inr (if stat_ok fs pattern then [pattern] else [])
          else
            let file = last_elem pattern;
                dir = cleanGlobPath (take (length pattern - length file) pattern)
            in if hasMeta dir then Inl (NotModelled ''pattern'')
               else Inr (glob fs dir file))"

definition getLatestFiles :: "string list \<Rightarrow> nat \<Rightarrow> string list" where
  "getLatestFiles fls n = (if length fls = 0 then [] else take (min n (length fls)) (rev (sort fls)))"

section \<open>Status records and the writer\<close>

text \<open>
  Modelled from the spec: package \<open>model\<close> (the type \<open>Status\<close>, \<open>ToJSON\<close>, \<open>StatusFromJSON\<close>)
  is not among the source files. Section 6 of the specification lists the fields of a
  status line; the list of node snapshots is left out. The two JSON functions are
  parameters of the operations below: \<open>ToJSON\<close> gives the serialization of a status,
  \<open>StatusFromJSON\<close> decodes a line or fails.
\<close>

datatype SchedulerStatus = StatusNone | StatusRunning | StatusError | StatusCancel | StatusSuccess
  | StatusSkipped

record Status =
  Name :: string
  RequestId :: string
  Status :: SchedulerStatus
  Pid :: int
  StartedAt :: string
  FinishedAt :: string
  Log :: string
  Params :: string

record StatusFile =
  File :: string
  FileStatus :: Status

text \<open>
  Modelled from the spec: the type \<open>writer\<close> with \<open>newWriter\<close>, \<open>open\<close>, \<open>write\<close> and \<open>close\<close>
  (\<open>writer.go\<close>) is not among the source files; the store uses its field \<open>statusFile\<close>.
  Sections 4.2 and 4.3 of the specification: \<open>open\<close> makes the directory of the file
  (mkdir -p) and opens the file, creating it when it is missing (\<open>util.OpenOrCreateFile\<close>
  of the sources opens an existing file for appending); writes are append-only, each
  \<open>write\<close> serializes the status and appends one line with a trailing newline; \<open>Write\<close>
  of the store delegates to the writer and fails with NotOpen if there is none, so \<open>write\<close>
  on the nil writer is \<open>ErrNotOpen\<close>. \<open>close\<close> changes no file.
\<close>

record writer =
  statusFile :: string

definition writer_open :: "filesys \<Rightarrow> writer \<Rightarrow> error + filesys" where
  "writer_open fs w =
     (case MkdirAll fs (Dir (statusFile w)) of
        Inl err \<Rightarrow> Inl err
      | Inr fs \<Rightarrow> OpenOrCreateFile fs (statusFile w))"

definition newWriter :: "filesys \<Rightarrow> string \<Rightarrow> error + writer \<times> filesys" where
  "newWriter fs file =
     (let w = \<lparr>statusFile = file\<rparr> in
      case writer_open fs w of Inl err \<Rightarrow> Inl err | Inr fs \<Rightarrow> Inr (w, fs))"

definition writer_write ::
    "(Status \<Rightarrow> string) \<Rightarrow> filesys \<Rightarrow> writer option \<Rightarrow> Status \<Rightarrow> error + filesys" where
  "writer_write ToJSON fs w st =
     (case w of
        None \<Rightarrow> Inl ErrNotOpen
      | Some w \<Rightarrow>
          (case readFile fs (statusFile w) of
             None \<Rightarrow> Inr fs
           | Some content \<Rightarrow>
               Inr (fs\<lparr>files := AList.update (statusFile w) (content @ ToJSON st @ [LF])
                                   (files fs)\<rparr>)))"

section \<open>The store\<close>

text \<open>
  \<open>JSONDB\<close>: the base directory, the current writer (nil is \<open>None\<close>) and the flag. The
  cache, the mutex and the logger hold no file and are left out; what \<open>cache.LoadLatest\<close>
  returns is a parameter of \<open>ReadStatusToday\<close>. Every operation takes the file system and
  returns it with its result.
\<close>

record JSONDB =
  baseDir :: string
  writer :: "writer option"
  latestStatusToday :: bool

definition Open ::
    "JSONDB \<Rightarrow> filesys \<Rightarrow> string \<Rightarrow> datetime \<Rightarrow> string \<Rightarrow> error option \<times> JSONDB \<times> filesys" where
  "Open s fs dagID t requestID =
     (if writer s \<noteq> None then (Some ErrWriterOpen, s, fs)
      else
        let filename = craftStatusFile dagID requestID t;
            indexFile = Join [craftIndexDataDir (baseDir s) dagID, filename];
            statusFile = Join [craftStatusDataDir (baseDir s) t, filename]
        in
          case MkdirAll fs (Dir indexFile) of
            Inl err \<Rightarrow> (Some (Errorf ''failed to create index directory'' err), s, fs)
          | Inr fs \<Rightarrow>
              (case (if \<not> pathExists fs indexFile then Create fs indexFile else Inr fs) of
                 Inl err \<Rightarrow> (Some (Errorf ''failed to create index file'' err), s, fs)
               | Inr fs \<Rightarrow>
                   (case newWriter fs statusFile of
                      Inl err \<Rightarrow> (Some (Errorf ''failed to create status file'' err), s, fs)
                    | Inr (w, fs) \<Rightarrow> (None, s\<lparr>writer := Some w\<rparr>, fs))))"

definition Write ::
    "(Status \<Rightarrow> string) \<Rightarrow> JSONDB \<Rightarrow> filesys \<Rightarrow> Status \<Rightarrow> error option \<times> JSONDB \<times> filesys" where
  "Write ToJSON s fs status =
     (case writer_write ToJSON fs (writer s) status of
        Inl err \<Rightarrow> (Some (Errorf ''failed to write status'' err), s, fs)
      | Inr fs \<Rightarrow> (None, s, fs))"

definition Compact ::
    "(Status \<Rightarrow> string) \<Rightarrow> (string \<Rightarrow> Status option) \<Rightarrow> filesys \<Rightarrow> string
     \<Rightarrow> error option \<times> filesys" where
  "Compact ToJSON StatusFromJSON fs statusFile' =
     (case ParseStatusFile StatusFromJSON fs statusFile' of
        Inl err \<Rightarrow>
          if err = EOF then (None, fs)
          else (Some (Errorf (''failed to parse file '' @ statusFile') err), fs)
      | Inr status \<Rightarrow>
          (case craftCompactedFileName statusFile' of
             Inl err \<Rightarrow> (Some err, fs)
           | Inr compactedFile \<Rightarrow>
               let w = \<lparr>statusFile = compactedFile\<rparr> in
               (case writer_open fs w of
                  Inl err \<Rightarrow> (Some err, fs)
                | Inr fs \<Rightarrow>
                    (case writer_write ToJSON fs (Some w) status of
                       Inl err \<Rightarrow>
                         (case Remove fs compactedFile of
                            Inl removeErr \<Rightarrow> (Some err, fs)
                          | Inr fs \<Rightarrow> (Some err, fs))
                     | Inr fs \<Rightarrow>
                         (case Remove fs statusFile' of
                            Inl err \<Rightarrow> (Some err, fs)
                          | Inr fs \<Rightarrow> (None, fs))))))"

definition Close ::
    "(Status \<Rightarrow> string) \<Rightarrow> (string \<Rightarrow> Status option) \<Rightarrow> JSONDB \<Rightarrow> filesys
     \<Rightarrow> error option \<times> JSONDB \<times> filesys" where
  "Close ToJSON StatusFromJSON s fs =
     (case writer s of
        None \<Rightarrow> (None, s, fs)
      | Some w \<Rightarrow>
          (case Compact ToJSON StatusFromJSON fs (statusFile w) of
             (err, fs) \<Rightarrow> (None, s\<lparr>writer := None\<rparr>, fs)))"

definition Rename :: "JSONDB \<Rightarrow> filesys \<Rightarrow> string \<Rightarrow> string \<Rightarrow> error option \<times> filesys" where
  "Rename s fs oldID newID =
     (if oldID = newID then (None, fs)
      else
        let oldIndexDir = craftIndexDataDir (baseDir s) oldID;
            newIndexDir = craftIndexDataDir (baseDir s) newID
        in if \<not> pathExists fs oldIndexDir then (None, fs)
           else if pathExists fs newIndexDir then (Some (Errorf newID ErrConflict), fs)
           else
             (case Rename_os fs oldIndexDir newIndexDir of
                Inl err \<Rightarrow> (Some (Errorf ''failed to rename index directory'' err), fs)
              | Inr fs \<Rightarrow> (None, fs)))"

definition indexFileToStatusFile :: "JSONDB \<Rightarrow> filesys \<Rightarrow> string \<Rightarrow> error + string" where
  "indexFileToStatusFile s fs indexFile =
     (case indexFileToStatusFilePattern (baseDir s) indexFile of
        Inl err \<Rightarrow> Inl err
      | Inr pattern \<Rightarrow>
          (case Glob fs pattern of
             Inl err \<Rightarrow> Inl err
           | Inr fls \<Rightarrow>
               (case getLatestFiles fls 1 of
                  [] \<Rightarrow> Inl (ErrorNew (''no status files found for '' @ indexFile))
                | f # _ \<Rightarrow> Inr f)))"

definition latestToday ::
    "JSONDB \<Rightarrow> filesys \<Rightarrow> string \<Rightarrow> datetime \<Rightarrow> bool \<Rightarrow> error + string" where
  "latestToday s fs dagID day latestStatusToday' =
     (let indexDir = craftIndexDataDir (baseDir s) dagID;
          pattern =
            (if latestStatusToday'
             then Join [indexDir, normalizedID dagID @ ''*'' @ Format_date day @ ''*.dat'']
             else Join [indexDir, normalizedID dagID @ ''*.dat''])
      in case Glob fs pattern of
           Inl err \<Rightarrow> Inl ErrNoStatusDataToday
         | Inr matches \<Rightarrow>
             if length matches = 0 then Inl ErrNoStatusDataToday
             else
               (case getLatestFiles matches 1 of
                  [] \<Rightarrow> Inl ErrNoStatusData
                | f # _ \<Rightarrow> indexFileToStatusFile s fs f))"

definition ReadStatusToday ::
    "(string \<Rightarrow> error + Status \<Rightarrow> error + Status) \<Rightarrow> (string \<Rightarrow> Status option)
     \<Rightarrow> JSONDB \<Rightarrow> filesys \<Rightarrow> datetime \<Rightarrow> string \<Rightarrow> error + Status" where
  "ReadStatusToday LoadLatest StatusFromJSON s fs now dagID =
     (case latestToday s fs dagID now (latestStatusToday s) of
        Inl err \<Rightarrow> Inl err
      | Inr file \<Rightarrow> LoadLatest file (ParseStatusFile StatusFromJSON fs file))"

text \<open>
  \<open>FindByRequestID\<close>: the inner loop over the status files of one index file, the outer
  loop over the index files; both return at the first status whose request ID is the one
  asked for.
\<close>

fun findInStatusFiles ::
    "(string \<Rightarrow> Status option) \<Rightarrow> filesys \<Rightarrow> string \<Rightarrow> string list \<Rightarrow> StatusFile option" where
  "findInStatusFiles StatusFromJSON fs reqID [] = None"
| "findInStatusFiles StatusFromJSON fs reqID (statusFile' # rest) =
     (case ParseStatusFile StatusFromJSON fs statusFile' of
        Inl err \<Rightarrow> findInStatusFiles StatusFromJSON fs reqID rest
      | Inr status \<Rightarrow>
          if RequestId status = reqID then Some \<lparr>File = statusFile', FileStatus = status\<rparr>
          else findInStatusFiles StatusFromJSON fs reqID rest)"

fun findInIndexFiles ::
    "(string \<Rightarrow> Status option) \<Rightarrow> JSONDB \<Rightarrow> filesys \<Rightarrow> string \<Rightarrow> string list \<Rightarrow> StatusFile option" where
  "findInIndexFiles StatusFromJSON s fs reqID [] = None"
| "findInIndexFiles StatusFromJSON s fs reqID (f # rest) =
     (case indexFileToStatusFilePattern (baseDir s) f of
        Inl err \<Rightarrow> findInIndexFiles StatusFromJSON s fs reqID rest
      | Inr pattern \<Rightarrow>
          (case Glob fs pattern of
             Inl err \<Rightarrow> findInIndexFiles StatusFromJSON s fs reqID rest
           | Inr statusFiles \<Rightarrow>
               (case findInStatusFiles StatusFromJSON fs reqID statusFiles of
                  Some found \<Rightarrow> Some found
                | None \<Rightarrow> findInIndexFiles StatusFromJSON s fs reqID rest)))"

definition FindByRequestID ::
    "(string \<Rightarrow> Status option) \<Rightarrow> JSONDB \<Rightarrow> filesys \<Rightarrow> string \<Rightarrow> string \<Rightarrow> error + StatusFile" where
  "FindByRequestID StatusFromJSON s fs dagID reqID =
     (if reqID = [] then Inl (Errorf ''requestID is empty'' ErrRequestIDNotFound)
      else
        let indexDir = craftIndexDataDir (baseDir s) dagID;
            safeReqID = TruncString reqID requestIDLenSafe;
            pattern = Join [indexDir, ''*'' @ safeReqID @ ''*.dat'']
        in case Glob fs pattern of
             Inl err \<Rightarrow> Inl err
           | Inr matches \<Rightarrow>
               (case findInIndexFiles StatusFromJSON s fs reqID (rev (sort matches)) of
                  Some found \<Rightarrow> Inr found
                | None \<Rightarrow> Inl (Errorf reqID ErrRequestIDNotFound)))"

section \<open>Sample values\<close>

text \<open>
  A codec of one-line texts for a status (name, request ID and status code) and a time,
  to run the operations on concrete inputs.
\<close>

definition status_code :: "SchedulerStatus \<Rightarrow> nat" where
  "status_code st = (case st of StatusNone \<Rightarrow> 0 | StatusRunning \<Rightarrow> 1 | StatusError \<Rightarrow> 2
     | StatusCancel \<Rightarrow> 3 | StatusSuccess \<Rightarrow> 4 | StatusSkipped \<Rightarrow> 5)"

definition sample_status :: "string \<Rightarrow> string \<Rightarrow> SchedulerStatus \<Rightarrow> Status" where
  "sample_status n r st =
     \<lparr>Name = n, RequestId = r, Status = st, Pid = 0, StartedAt = ''-'', FinishedAt = ''-'',
      Log = [], Params = []\<rparr>"

definition sample_ToJSON :: "Status \<Rightarrow> string" where
  "sample_ToJSON st =
     ''{Name:'' @ Name st @ '',RequestId:'' @ RequestId st @ '',Status:''
     @ [digit (status_code (Status st))] @ ''}''"

definition sample_StatusFromJSON :: "string \<Rightarrow> Status option" where
  "sample_StatusFromJSON l =
     (if HasPrefix l ''{Name:'' then
        (let l1 = drop 6 l; n = takeWhile (\<lambda>c. c \<noteq> CHR '','') l1; l2 = drop (length n) l1 in
         if HasPrefix l2 '',RequestId:'' then
           (let l3 = drop 11 l2; r = takeWhile (\<lambda>c. c \<noteq> CHR '','') l3; l4 = drop (length r) l3 in
            if length l4 = 10 \<and> HasPrefix l4 '',Status:'' \<and> last l4 = CHR ''}'' then
              (case filter (\<lambda>st. digit (status_code st) = l4 ! 8)
                      [StatusNone, StatusRunning, StatusError, StatusCancel, StatusSuccess,
                       StatusSkipped] of
                 st # _ \<Rightarrow> Some (sample_status n r st)
               | [] \<Rightarrow> None)
            else None)
         else None)
      else None)"


section \<open>Properties of the store\<close>

lemma readLineLoop_Nil: "readLineLoop [] ret = (ret, Some EOF)"
  using readLineLoop_rest [of "[]" ret] bufsize_pos by simp

lemma parseLoop_Nil: "parseLoop d [] 0 ret = last_or_EOF ret"
  by (rule parseLoop_EOF [OF readLineLoop_Nil])

text \<open>
  Claim C9. For every file whose parse yields no decodable status line (\<open>ParseStatusFile\<close>
  returns \<open>io.EOF\<close>), \<open>Compact\<close> returns nil and the file system it returns is the one it
  was given: no compacted file is created, the file is not removed.
\<close>

theorem Compact_no_data_no_change:
  "ParseStatusFile StatusFromJSON fs file = Inl EOF \<Longrightarrow>
   Compact ToJSON StatusFromJSON fs file = (None, fs)"
  by (simp add: Compact_def)

theorem Compact_no_data_no_change_witness:
  "ParseStatusFile sample_StatusFromJSON \<lparr>files = [(''/b/s.dat'', [])], dirs = [''/b'']\<rparr> ''/b/s.dat''
     = Inl EOF
   \<and> Compact sample_ToJSON sample_StatusFromJSON
        \<lparr>files = [(''/b/s.dat'', [])], dirs = [''/b'']\<rparr> ''/b/s.dat''
     = (None, \<lparr>files = [(''/b/s.dat'', [])], dirs = [''/b'']\<rparr>)"
proof -
  let ?fs = "\<lparr>files = [(''/b/s.dat'', [])], dirs = [''/b'']\<rparr>"
  have p: "ParseStatusFile sample_StatusFromJSON ?fs ''/b/s.dat'' = Inl EOF"
    by (simp add: ParseStatusFile_def readFile_def parseLoop_Nil last_or_EOF_def)
  show ?thesis using p Compact_no_data_no_change [OF p, of sample_ToJSON] by simp
qed

text \<open>
  Claim C3. For every status, \<open>Write\<close> on a store without a writer (none was opened, or
  \<open>Close\<close> has returned) returns an error that wraps \<open>ErrNotOpen\<close>, and the store and the
  file system are unchanged. The store's \<open>Write\<close> calls \<open>write\<close> on the writer it holds
  without looking at it; that \<open>write\<close> on the nil writer is \<open>ErrNotOpen\<close> is modelled
  from the specification.
\<close>

theorem Write_without_writer_NotOpen:
  "Write ToJSON (s\<lparr>writer := None\<rparr>) fs status
     = (Some (Errorf ''failed to write status'' ErrNotOpen), s\<lparr>writer := None\<rparr>, fs)
   \<and> error_is (Errorf ''failed to write status'' ErrNotOpen) ErrNotOpen
   \<and> (case Close ToJSON StatusFromJSON s fs of
        (err, s', fs') \<Rightarrow>
          Write ToJSON s' fs' status = (Some (Errorf ''failed to write status'' ErrNotOpen), s', fs'))"
  by (auto simp: Write_def writer_write_def Close_def split: option.splits prod.splits)


definition sample_time :: datetime where
  "sample_time = \<lparr>Year = 2024, Month = 1, Day = 2, Hour = 3, Minute = 4, Sec = 5, Milli = 0\<rparr>"

lemma latestToday_no_matches:
  assumes "case Glob fs (if flag
             then Join [craftIndexDataDir (baseDir s) dagID,
                        normalizedID dagID @ ''*'' @ Format_date day @ ''*.dat'']
             else Join [craftIndexDataDir (baseDir s) dagID, normalizedID dagID @ ''*.dat''])
           of Inl err \<Rightarrow> True | Inr matches \<Rightarrow> matches = []"
  shows "latestToday s fs dagID day flag = Inl ErrNoStatusDataToday"
  using assms by (cases flag) (auto simp: latestToday_def Let_def split: sum.splits)

text \<open>
  Claim C7, as the code has it. When the glob over the index directory of a DAG yields
  no index entry (or fails), \<open>ReadStatusToday\<close> fails with \<open>ErrNoStatusDataToday\<close>, with the
  strict-today flag set and with the flag not set: the guard of \<open>latestToday\<close> returns this
  error for an empty result whatever the flag is, and the later return of
  \<open>ErrNoStatusData\<close> is never reached in this case.
\<close>

theorem ReadStatusToday_no_entries:
  assumes "case Glob fs (if latestStatusToday s
             then Join [craftIndexDataDir (baseDir s) dagID,
                        normalizedID dagID @ ''*'' @ Format_date now @ ''*.dat'']
             else Join [craftIndexDataDir (baseDir s) dagID, normalizedID dagID @ ''*.dat''])
           of Inl err \<Rightarrow> True | Inr matches \<Rightarrow> matches = []"
  shows "ReadStatusToday LoadLatest StatusFromJSON s fs now dagID = Inl ErrNoStatusDataToday"
  using latestToday_no_matches [OF assms] by (simp add: ReadStatusToday_def)

theorem ReadStatusToday_no_entries_witness:
  "Glob \<lparr>files = [], dirs = []\<rparr>
     (Join [craftIndexDataDir ''/b'' ''hello'',
            normalizedID ''hello'' @ ''*'' @ Format_date sample_time @ ''*.dat'']) = Inr []
   \<and> ReadStatusToday (\<lambda>file loaded. loaded) sample_StatusFromJSON
        \<lparr>baseDir = ''/b'', writer = None, latestStatusToday = True\<rparr>
        \<lparr>files = [], dirs = []\<rparr> sample_time ''hello'' = Inl ErrNoStatusDataToday"
proof -
  have g: "Glob \<lparr>files = [], dirs = []\<rparr>
     (Join [craftIndexDataDir ''/b'' ''hello'',
            normalizedID ''hello'' @ ''*'' @ Format_date sample_time @ ''*.dat'']) = Inr []"
    by code_simp
  show ?thesis
    using g ReadStatusToday_no_entries [of "\<lparr>files = [], dirs = []\<rparr>"
        "\<lparr>baseDir = ''/b'', writer = None, latestStatusToday = True\<rparr>" "''hello''" sample_time
        "\<lambda>file loaded. loaded" sample_StatusFromJSON]
    by simp
qed

text \<open>
  The claim as stated, \<open>ErrNoStatusData\<close> when the flag is not set, fails on an empty
  store.
\<close>

theorem ReadStatusToday_not_strict_counterexample:
  "ReadStatusToday (\<lambda>file loaded. loaded) sample_StatusFromJSON
        \<lparr>baseDir = ''/b'', writer = None, latestStatusToday = False\<rparr>
        \<lparr>files = [], dirs = []\<rparr> sample_time ''hello'' = Inl ErrNoStatusDataToday
   \<and> ReadStatusToday (\<lambda>file loaded. loaded) sample_StatusFromJSON
        \<lparr>baseDir = ''/b'', writer = None, latestStatusToday = False\<rparr>
        \<lparr>files = [], dirs = []\<rparr> sample_time ''hello'' \<noteq> Inl ErrNoStatusData"
proof -
  have g: "Glob \<lparr>files = [], dirs = []\<rparr>
     (Join [craftIndexDataDir ''/b'' ''hello'', normalizedID ''hello'' @ ''*.dat'']) = Inr []"
    by code_simp
  have "latestToday \<lparr>baseDir = ''/b'', writer = None, latestStatusToday = False\<rparr>
          \<lparr>files = [], dirs = []\<rparr> ''hello'' sample_time False = Inl ErrNoStatusDataToday"
    using g latestToday_no_matches [of "\<lparr>files = [], dirs = []\<rparr>" False
        "\<lparr>baseDir = ''/b'', writer = None, latestStatusToday = False\<rparr>" "''hello''" sample_time]
    by simp
  then show ?thesis by (simp add: ReadStatusToday_def)
qed

section \<open>Clean paths\<close>

text \<open>
  \<open>Clean\<close> folds \<open>clean_step\<close> over the elements of a path and renders the stack that is
  left. A stack is normal when no element is empty, \<open>.\<close> or holds a separator, and \<open>..\<close>
  elements stand only at the front of a relative path. The clean paths are the renderings of
  normal stacks; \<open>Dir\<close>, \<open>Base\<close> and \<open>Join\<close> are computed on them.
\<close>

section \<open>Cleaned paths\<close>

definition rooted :: "string \<Rightarrow> bool" where
  "rooted p = (p \<noteq> [] \<and> hd p = Separator)"

definition clean_stack :: "string \<Rightarrow> string list" where
  "clean_stack p = foldl (clean_step (rooted p)) [] (split_sep p)"

definition render :: "bool \<Rightarrow> string list \<Rightarrow> string" where
  "render r st = (if r then Separator # join_sep st else if st = [] then ''.'' else join_sep st)"

fun dotdot_prefix :: "string list \<Rightarrow> bool" where
  "dotdot_prefix [] = True"
| "dotdot_prefix (c # cs) = (if c = ''..'' then dotdot_prefix cs else ''..'' \<notin> set cs)"

definition normal :: "bool \<Rightarrow> string list \<Rightarrow> bool" where
  "normal r st =
     ((\<forall>c\<in>set st. c \<noteq> [] \<and> Separator \<notin> set c \<and> c \<noteq> ''.'')
      \<and> (r \<longrightarrow> ''..'' \<notin> set st) \<and> dotdot_prefix st)"

lemma split_sep_nonempty [simp]: "split_sep p \<noteq> []"
  by (induction p) (auto split: list.splits)

lemma split_sep_append:
  "split_sep (a @ Separator # b) = split_sep a @ split_sep b"
proof (induction a)
  case Nil
  then show ?case by simp
next
  case (Cons c a)
  obtain x xs where x: "split_sep a = x # xs" by (cases "split_sep a") auto
  show ?case using Cons x by (simp split: list.splits)
qed

lemma split_sep_no_sep: "Separator \<notin> set n \<Longrightarrow> split_sep n = [n]"
  by (induction n) auto

lemma split_sep_no_sep_elems: "c \<in> set (split_sep p) \<Longrightarrow> Separator \<notin> set c"
proof (induction p arbitrary: c)
  case Nil
  then show ?case by simp
next
  case (Cons a p)
  obtain x xs where x: "split_sep p = x # xs" by (cases "split_sep p") auto
  show ?case using Cons x by (auto split: if_splits)
qed

lemma join_sep_snoc:
  "join_sep (st @ [n]) = (if st = [] then n else join_sep st @ Separator # n)"
  by (induction st rule: join_sep.induct) auto

lemma split_join_sep:
  "st \<noteq> [] \<Longrightarrow> \<forall>c\<in>set st. Separator \<notin> set c \<Longrightarrow> split_sep (join_sep st) = st"
proof (induction st rule: join_sep.induct)
  case 1
  then show ?case by simp
next
  case (2 x)
  then show ?case by (simp add: split_sep_no_sep)
next
  case (3 x y ys)
  then show ?case by (simp add: split_sep_append split_sep_no_sep)
qed

lemma dotdot_prefix_all:
  "dotdot_prefix st \<Longrightarrow> st \<noteq> [] \<Longrightarrow> last st = ''..'' \<Longrightarrow> set st \<subseteq> {''..''}"
proof (induction st)
  case Nil
  then show ?case by simp
next
  case (Cons a st)
  show ?case
  proof (cases "st = []")
    case True
    then show ?thesis using Cons.prems by simp
  next
    case False
    then have l: "last st = ''..''" using Cons.prems by simp
    then have "''..'' \<in> set st" using last_in_set [OF False] by simp
    then have "a = ''..''" and "dotdot_prefix st" using Cons.prems(1) by (auto split: if_splits)
    then show ?thesis using Cons.IH [OF _ False l] by simp
  qed
qed

lemma dotdot_prefix_snoc_real:
  "dotdot_prefix st \<Longrightarrow> c \<noteq> ''..'' \<Longrightarrow> dotdot_prefix (st @ [c])"
  by (induction st) (auto split: if_splits)

lemma dotdot_prefix_snoc_dotdot:
  "set st \<subseteq> {''..''} \<Longrightarrow> dotdot_prefix (st @ [''..''])"
  by (induction st) auto

lemma dotdot_prefix_butlast:
  "dotdot_prefix st \<Longrightarrow> dotdot_prefix (butlast st)"
  by (induction st) (auto split: if_splits dest: in_set_butlastD)

lemma dotdot_prefix_before:
  "dotdot_prefix (acc @ ''..'' # cs) \<Longrightarrow> set acc \<subseteq> {''..''}"
  by (induction acc) (auto split: if_splits)

lemma normal_step:
  assumes "normal r st" and "Separator \<notin> set c"
  shows "normal r (clean_step r st c)"
proof -
  consider (skip) "c = [] \<or> c = ''.''" | (dd) "c = ''..''" | (real) "c \<noteq> []" "c \<noteq> ''.''" "c \<noteq> ''..''"
    by blast
  then show ?thesis
  proof cases
    case skip
    then show ?thesis using assms by (auto simp: clean_step_def)
  next
    case dd
    show ?thesis
    proof (cases "st \<noteq> [] \<and> last st \<noteq> ''..''")
      case True
      then show ?thesis using assms dd
        by (auto simp: clean_step_def normal_def dotdot_prefix_butlast dest: in_set_butlastD)
    next
      case False
      then have all: "\<not> r \<Longrightarrow> set st \<subseteq> {''..''}"
        using assms(1) dotdot_prefix_all [of st] by (cases "st = []") (auto simp: normal_def)
      show ?thesis
      proof (cases r)
        case True
        then show ?thesis using assms dd False by (auto simp: clean_step_def)
      next
        case nr: False
        have "dotdot_prefix (st @ [''..''])" using all [OF nr] by (rule dotdot_prefix_snoc_dotdot)
        then show ?thesis using assms dd False nr
          by (auto simp: clean_step_def normal_def Separator_def)
      qed
    qed
  next
    case real
    then show ?thesis using assms
      by (auto simp: clean_step_def normal_def dotdot_prefix_snoc_real)
  qed
qed

lemma normal_foldl:
  "normal r st \<Longrightarrow> \<forall>c\<in>set cs. Separator \<notin> set c \<Longrightarrow> normal r (foldl (clean_step r) st cs)"
  by (induction cs arbitrary: st) (auto simp: normal_step)

lemma normal_Nil [simp]: "normal r []"
  by (simp add: normal_def)

lemma normal_clean_stack: "normal (rooted p) (clean_stack p)"
  unfolding clean_stack_def by (rule normal_foldl) (auto dest: split_sep_no_sep_elems)

lemma foldl_normal_id:
  "normal r (acc @ st) \<Longrightarrow> foldl (clean_step r) acc st = acc @ st"
proof (induction st arbitrary: acc)
  case Nil
  then show ?case by simp
next
  case (Cons c cs)
  have n: "normal r ((acc @ [c]) @ cs)" using Cons.prems by simp
  have "clean_step r acc c = acc @ [c]"
  proof (cases "c = ''..''")
    case True
    then have "set acc \<subseteq> {''..''}" using Cons.prems dotdot_prefix_before [of acc cs]
      by (simp add: normal_def)
    then have "acc = [] \<or> last acc = ''..''"
    proof (cases "acc = []")
      case True
      then show ?thesis by simp
    next
      case False
      assume "set acc \<subseteq> {''..''}"
      then show ?thesis using last_in_set [OF False] by blast
    qed
    moreover have "\<not> r" using Cons.prems True by (auto simp: normal_def)
    ultimately show ?thesis using True by (auto simp: clean_step_def)
  next
    case False
    then show ?thesis using Cons.prems by (auto simp: clean_step_def normal_def)
  qed
  then show ?case using Cons.IH [OF n] by simp
qed

lemma join_sep_hd:
  "st \<noteq> [] \<Longrightarrow> hd st \<noteq> [] \<Longrightarrow> join_sep st \<noteq> [] \<and> hd (join_sep st) = hd (hd st)"
  by (induction st rule: join_sep.induct) auto

lemma normal_join_sep_empty: "normal r st \<Longrightarrow> (join_sep st = []) = (st = [])"
  using join_sep_hd [of st] by (cases st) (auto simp: normal_def)

lemma render_nonempty: "normal r st \<Longrightarrow> render r st \<noteq> []"
  by (auto simp: render_def normal_join_sep_empty)

lemma Clean_render:
  assumes "p \<noteq> []"
  shows "Clean p = render (rooted p) (clean_stack p)"
proof -
  have e: "(join_sep (clean_stack p) = []) = (clean_stack p = [])"
    by (rule normal_join_sep_empty [OF normal_clean_stack])
  have r: "rooted p = (hd p = Separator)" using assms by (simp add: rooted_def)
  have "Clean p = (if rooted p then Separator # join_sep (clean_stack p)
                   else if join_sep (clean_stack p) = [] then ''.'' else join_sep (clean_stack p))"
    using assms unfolding Clean_def clean_stack_def r by (simp add: Let_def)
  then show ?thesis unfolding render_def e .
qed

lemma rooted_render: "normal r st \<Longrightarrow> rooted (render r st) = r"
proof (cases r)
  case True
  then show ?thesis by (simp add: rooted_def render_def)
next
  case False
  assume n: "normal r st"
  show ?thesis
  proof (cases "st = []")
    case True
    then show ?thesis using False by (simp add: rooted_def render_def Separator_def)
  next
    case ne: False
    then have h: "hd st \<noteq> []" "Separator \<notin> set (hd st)" using n by (auto simp: normal_def)
    then have "hd (hd st) \<noteq> Separator" by (cases "hd st") auto
    then show ?thesis using False ne join_sep_hd [OF ne h(1)] by (simp add: rooted_def render_def)
  qed
qed

lemma split_sep_render:
  assumes "normal r st"
  shows "foldl (clean_step r) [] (split_sep (render r st)) = st"
proof -
  have ns: "\<forall>c\<in>set st. Separator \<notin> set c" using assms by (simp add: normal_def)
  have id: "foldl (clean_step r) [] st = st" using foldl_normal_id [of r "[]" st] assms by simp
  show ?thesis
  proof (cases "st = []")
    case True
    then show ?thesis by (auto simp: render_def clean_step_def Separator_def)
  next
    case False
    have s: "split_sep (join_sep st) = st" by (rule split_join_sep [OF False ns])
    show ?thesis
    proof (cases r)
      case True
      have "split_sep (render r st) = [] # st"
        using True s by (simp add: render_def)
      then show ?thesis using id by (simp add: clean_step_def)
    next
      case nr: False
      then show ?thesis using False s id by (simp add: render_def)
    qed
  qed
qed

lemma Clean_render_append:
  assumes "normal r st"
  shows "Clean (render r st @ Separator # m) = render r (foldl (clean_step r) st (split_sep m))"
proof -
  let ?p = "render r st @ Separator # m"
  have ne: "?p \<noteq> []" by simp
  have "hd ?p = hd (render r st)" using render_nonempty [OF assms] by (simp add: hd_append)
  then have r: "rooted ?p = r"
    using rooted_render [OF assms] render_nonempty [OF assms] by (simp add: rooted_def)
  have "clean_stack ?p = foldl (clean_step r) [] (split_sep (render r st) @ split_sep m)"
    unfolding clean_stack_def r by (simp add: split_sep_append)
  also have "\<dots> = foldl (clean_step r) st (split_sep m)"
    by (simp add: split_sep_render [OF assms])
  finally show ?thesis using Clean_render [OF ne] r by simp
qed

lemma Clean_idem: "normal r st \<Longrightarrow> Clean (render r st) = render r st"
  using Clean_render [of "render r st"] rooted_render [of r st] split_sep_render [of r st]
    render_nonempty [of r st]
  by (simp add: clean_stack_def)

definition is_clean :: "string \<Rightarrow> bool" where
  "is_clean p = (\<exists>r st. normal r st \<and> p = render r st)"

lemma is_clean_Clean: "is_clean (Clean p)"
proof (cases "p = []")
  case True
  have "Clean [] = render False []" by (simp add: Clean_def render_def)
  then show ?thesis using True normal_Nil unfolding is_clean_def by blast
next
  case False
  show ?thesis unfolding is_clean_def
    using Clean_render [OF False] normal_clean_stack by blast
qed

lemma is_clean_Dir: "is_clean (Dir p)"
  unfolding Dir_def by (rule is_clean_Clean)

lemma Join_two: "d \<noteq> [] \<Longrightarrow> Join [d, n] = Clean (d @ Separator # n)"
  by simp

lemma Join_render:
  "normal r st \<Longrightarrow> Join [render r st, m] = render r (foldl (clean_step r) st (split_sep m))"
  using Join_two [OF render_nonempty] Clean_render_append by simp

lemma last_elem_no_sep: "Separator \<notin> set (last_elem p)"
  unfolding last_elem_def by (auto dest: set_takeWhileD)

lemma last_elem_append:
  assumes "Separator \<notin> set n"
  shows "last_elem (x @ Separator # n) = n"
proof -
  have t: "takeWhile (\<lambda>c. c \<noteq> Separator) (rev n @ Separator # rev x) = rev n"
    using assms by (subst takeWhile_append2) auto
  have r: "rev (x @ Separator # n) = rev n @ Separator # rev x" by simp
  show ?thesis by (simp only: last_elem_def r t rev_rev_ident)
qed

lemma last_elem_self:
  assumes "Separator \<notin> set n"
  shows "last_elem n = n"
proof -
  have t: "takeWhile (\<lambda>c. c \<noteq> Separator) (rev n) = rev n"
    using assms by (subst takeWhile_eq_all_conv) auto
  show ?thesis by (simp only: last_elem_def t rev_rev_ident)
qed

lemma render_snoc:
  assumes "normal r (st @ [n])"
  shows "render r (st @ [n])
         = (if st = [] then (if r then [Separator] else []) else render r st @ [Separator]) @ n"
proof -
  have "n \<noteq> []" using assms by (simp add: normal_def)
  then show ?thesis by (auto simp: render_def join_sep_snoc)
qed

lemma normal_butlast: "normal r (st @ [n]) \<Longrightarrow> normal r st"
  using dotdot_prefix_butlast [of "st @ [n]"] by (auto simp: normal_def)

lemma last_elem_render_snoc:
  assumes "normal r (st @ [n])"
  shows "last_elem (render r (st @ [n])) = n"
proof -
  have ns: "Separator \<notin> set n" using assms by (simp add: normal_def)
  show ?thesis
    unfolding render_snoc [OF assms]
    using last_elem_append [OF ns, of "[]"] last_elem_append [OF ns, of "render r st"]
      last_elem_self [OF ns]
    by auto
qed

lemma Dir_render_snoc:
  assumes "normal r (st @ [n])"
  shows "Dir (render r (st @ [n])) = render r st"
proof -
  have n: "normal r st" by (rule normal_butlast [OF assms])
  have l: "last_elem (render r (st @ [n])) = n" by (rule last_elem_render_snoc [OF assms])
  have pre: "take (length (render r (st @ [n])) - length n) (render r (st @ [n]))
             = (if st = [] then (if r then [Separator] else []) else render r st @ [Separator])"
    unfolding render_snoc [OF assms] by simp
  show ?thesis
  proof (cases "st = []")
    case True
    show ?thesis unfolding Dir_def l pre using True
      by (auto simp: Clean_def render_def clean_step_def)
  next
    case False
    have "Clean (render r st @ Separator # []) = render r st"
      using Clean_render_append [OF n, of "[]"] by (simp add: clean_step_def)
    then show ?thesis unfolding Dir_def l pre using False by simp
  qed
qed

lemma Base_render_snoc:
  assumes "normal r (st @ [n])"
  shows "Base (render r (st @ [n])) = n"
proof -
  have ne: "n \<noteq> []" and ns: "Separator \<notin> set n" using assms by (simp_all add: normal_def)
  let ?p = "render r (st @ [n])"
  have pn: "?p \<noteq> []" by (rule render_nonempty [OF assms])
  have "last ?p = last n" unfolding render_snoc [OF assms] using ne by simp
  moreover have "last n \<noteq> Separator" using ns last_in_set [OF ne] by auto
  ultimately have "hd (rev ?p) \<noteq> Separator" using pn by (simp add: hd_rev)
  then have "dropWhile (\<lambda>c. c = Separator) (rev ?p) = rev ?p"
    using pn by (cases "rev ?p") auto
  then show ?thesis
    using pn ne last_elem_render_snoc [OF assms] by (simp add: Base_def Let_def)
qed

lemma Ext_render_snoc:
  "normal r (st @ [n]) \<Longrightarrow> Ext (render r (st @ [n])) = Ext n"
  using last_elem_render_snoc [of r st n] last_elem_self [of n]
  by (simp add: Ext_def normal_def)

lemma HasSuffix_append: "HasSuffix (x @ s) s"
  by (simp add: HasSuffix_def)

lemma TrimSuffix_prefix: "\<exists>k. TrimSuffix b e = take k b"
  unfolding TrimSuffix_def by (auto intro: exI [of _ "length b"])

lemma long_is_real: "3 \<le> length x \<Longrightarrow> x \<noteq> [] \<and> x \<noteq> ''.'' \<and> x \<noteq> ''..''"
  by auto

lemma Base_shape: "Base p = [Separator] \<or> (Base p \<noteq> [] \<and> Separator \<notin> set (Base p))"
  unfolding Base_def Let_def using last_elem_no_sep by (auto simp: Separator_def)

text \<open>The compacted name of any path: a sibling with the suffix.\<close>

lemma craftCompactedFileName_sibling:
  assumes "craftCompactedFileName p = Inr q"
  shows "Dir q = Dir p \<and> HasSuffix q compactedFileSuffix \<and> is_clean q"
proof -
  obtain r st where n: "normal r st" and d: "Dir p = render r st"
    using is_clean_Dir [of p] unfolding is_clean_def by blast
  let ?X = "TrimSuffix (Base p) (Ext p)"
  have q: "q = Join [Dir p, ?X @ compactedFileSuffix]"
    using assms by (auto simp: craftCompactedFileName_def split: if_splits)
  obtain k where k: "?X = take k (Base p)" using TrimSuffix_prefix by blast
  define n' where "n' = (if Separator \<in> set ?X then compactedFileSuffix else ?X @ compactedFileSuffix)"
  have sfx: "Separator \<notin> set compactedFileSuffix"
    by (simp add: compactedFileSuffix_def Separator_def)
  have split: "foldl (clean_step r) st (split_sep (?X @ compactedFileSuffix)) = st @ [n']"
  proof (cases "Separator \<in> set ?X")
    case True
    then have "Base p = [Separator]" using Base_shape [of p] k by (auto dest: in_set_takeD)
    then have "?X = [Separator]" using True k by (cases k) auto
    then have "split_sep (?X @ compactedFileSuffix) = [[], compactedFileSuffix]"
      using split_sep_no_sep [OF sfx] by simp
    then show ?thesis using True
      by (simp add: n'_def clean_step_def compactedFileSuffix_def)
  next
    case False
    then have "split_sep (?X @ compactedFileSuffix) = [?X @ compactedFileSuffix]"
      using sfx by (intro split_sep_no_sep) auto
    moreover have "3 \<le> length (?X @ compactedFileSuffix)" by (simp add: compactedFileSuffix_def)
    then have "?X @ compactedFileSuffix \<noteq> [] \<and> ?X @ compactedFileSuffix \<noteq> ''.''
               \<and> ?X @ compactedFileSuffix \<noteq> ''..''"
      by (rule long_is_real)
    ultimately show ?thesis using False by (simp add: n'_def clean_step_def)
  qed
  have ns: "Separator \<notin> set n'" using sfx by (auto simp: n'_def)
  have nn: "normal r (st @ [n'])"
    using normal_foldl [OF n, of "split_sep (?X @ compactedFileSuffix)"] split
    by (auto dest: split_sep_no_sep_elems)
  have qr: "q = render r (st @ [n'])"
    unfolding q d using Join_render [OF n] split by simp
  obtain y where y: "n' = y @ compactedFileSuffix"
    by (cases "Separator \<in> set ?X") (auto simp: n'_def)
  have "render r (st @ [n'])
        = ((if st = [] then (if r then [Separator] else []) else render r st @ [Separator]) @ y)
          @ compactedFileSuffix"
    unfolding render_snoc [OF nn] by (simp add: y)
  then have "HasSuffix q compactedFileSuffix"
    unfolding qr using HasSuffix_append by metis
  moreover have "Dir q = Dir p" unfolding qr d by (rule Dir_render_snoc [OF nn])
  moreover have "is_clean q" unfolding is_clean_def using qr nn by blast
  ultimately show ?thesis by simp
qed

section \<open>A run of the store: \<open>Open\<close>, \<open>Write\<close> and \<open>Close\<close>\<close>

text \<open>
  \<open>Writes\<close> is a sequence of calls of \<open>Write\<close> (the caller of the store ignores no error;
  here the next call is made whatever the last one returned). \<open>status_lines\<close> is what the
  writer has appended to the status file after these calls.
\<close>

fun Writes :: "(Status \<Rightarrow> string) \<Rightarrow> JSONDB \<Rightarrow> filesys \<Rightarrow> Status list \<Rightarrow> JSONDB \<times> filesys" where
  "Writes ToJSON s fs [] = (s, fs)"
| "Writes ToJSON s fs (w # ws) =
     (case Write ToJSON s fs w of (err, s, fs) \<Rightarrow> Writes ToJSON s fs ws)"

definition status_lines :: "(Status \<Rightarrow> string) \<Rightarrow> Status list \<Rightarrow> string" where
  "status_lines ToJSON ws = concat (map (\<lambda>w. ToJSON w @ [LF]) ws)"

lemma readFile_update [simp]:
  "readFile (fs\<lparr>files := AList.update k v (files fs)\<rparr>) p = (if p = k then Some v else readFile fs p)"
  by (simp add: readFile_def update_conv')

lemma readFile_delete [simp]:
  "readFile (fs\<lparr>files := AList.delete k (files fs)\<rparr>) p = (if p = k then None else readFile fs p)"
  by (simp add: readFile_def delete_conv')

lemma isDir_files_update [simp]: "isDir (fs\<lparr>files := f\<rparr>) p = isDir fs p"
  by (simp add: isDir_def)

lemma readFile_dirs_update [simp]: "readFile (fs\<lparr>dirs := d\<rparr>) p = readFile fs p"
  by (simp add: readFile_def)

lemma ancestors_from_last: "pre @ p \<in> set (ancestors_from pre p)"
proof (induction p arbitrary: pre)
  case Nil
  then show ?case by simp
next
  case (Cons a p)
  show ?case using Cons [of "pre @ [a]"] by auto
qed

lemma ancestors_self: "p \<in> set (ancestors_from [] p)"
  using ancestors_from_last [of "[]" p] by simp

lemma MkdirAll_success:
  assumes "MkdirAll fs p = Inr fs'"
  shows "files fs' = files fs"
    and "\<And>a. a \<in> set (ancestors_from [] p) \<Longrightarrow> readFile fs a = None \<and> isDir fs' a"
    and "\<And>x. isDir fs x \<Longrightarrow> isDir fs' x"
  using assms
  by (auto simp: MkdirAll_def list_ex_iff isDir_def split: if_splits)

lemma MkdirAll_exists:
  assumes "\<And>a. a \<in> set (ancestors_from [] p) \<Longrightarrow> readFile fs a = None \<and> isDir fs a"
  shows "MkdirAll fs p = Inr fs"
proof -
  have "filter (\<lambda>a. \<not> isDir fs a) (remdups (ancestors_from [] p)) = []"
    using assms by (auto simp: filter_empty_conv)
  moreover have "\<not> list_ex (\<lambda>a. readFile fs a \<noteq> None) (ancestors_from [] p)"
    using assms by (auto simp: list_ex_iff)
  ultimately show ?thesis by (simp add: MkdirAll_def)
qed

text \<open>What a successful \<open>newWriter\<close> leaves behind.\<close>

definition dir_ready :: "filesys \<Rightarrow> string \<Rightarrow> bool" where
  "dir_ready fs d = (\<forall>a\<in>set (ancestors_from [] d). readFile fs a = None \<and> isDir fs a)"

lemma newWriter_success:
  assumes "newWriter fs file = Inr (w, fs')"
  shows "statusFile w = file" and "dir_ready fs' (Dir file)" and "readFile fs' file \<noteq> None"
proof -
  obtain fsC where m: "MkdirAll fs (Dir file) = Inr fsC"
    and o: "OpenOrCreateFile fsC file = Inr fs'" and w: "w = \<lparr>statusFile = file\<rparr>"
    using assms by (auto simp: newWriter_def writer_open_def Let_def split: sum.splits)
  show "statusFile w = file" using w by simp
  have c: "dir_ready fsC (Dir file)"
    using MkdirAll_success(2) [OF m] MkdirAll_success(1) [OF m]
    by (auto simp: dir_ready_def readFile_def)
  show "dir_ready fs' (Dir file)" and "readFile fs' file \<noteq> None"
  proof -
    consider (ex) "FileExists fsC file" | (new) "\<not> FileExists fsC file" by blast
    then have "dir_ready fs' (Dir file) \<and> readFile fs' file \<noteq> None"
    proof cases
      case ex
      then show ?thesis using o c
        by (auto simp: OpenOrCreateFile_def OpenFile_def split: if_splits)
    next
      case new
      then have cr: "Create fsC file = Inr fs'" using o
        by (simp add: OpenOrCreateFile_def CreateFile_def)
      then have nd: "\<not> isDir fsC file" and f: "fs' = fsC\<lparr>files := AList.update file [] (files fsC)\<rparr>"
        by (auto simp: Create_def split: if_splits)
      have "dir_ready fs' (Dir file)" unfolding f using c nd by (auto simp: dir_ready_def)
      then show ?thesis unfolding f by simp
    qed
    then show "dir_ready fs' (Dir file)" and "readFile fs' file \<noteq> None" by simp_all
  qed
qed

lemma Open_success:
  assumes "Open s fs dagID t requestID = (None, s1, fs1)"
  shows "\<exists>w. writer s1 = Some w \<and> baseDir s1 = baseDir s
             \<and> statusFile w = Join [craftStatusDataDir (baseDir s) t,
                                    craftStatusFile dagID requestID t]
             \<and> dir_ready fs1 (Dir (statusFile w)) \<and> readFile fs1 (statusFile w) \<noteq> None"
proof -
  let ?sf = "Join [craftStatusDataDir (baseDir s) t, craftStatusFile dagID requestID t]"
  obtain fsB w where nw: "newWriter fsB ?sf = Inr (w, fs1)" and s1: "s1 = s\<lparr>writer := Some w\<rparr>"
    using assms
    by (auto simp: Open_def Let_def split: if_splits sum.splits prod.splits)
  show ?thesis using newWriter_success [OF nw] s1 by simp
qed

lemma Writes_open:
  assumes "writer s = Some w" and "readFile fs (statusFile w) = Some c"
    and "Writes ToJSON s fs ws = (s', fs')"
  shows "s' = s \<and> dirs fs' = dirs fs
         \<and> (\<forall>p. readFile fs' p = (if p = statusFile w then Some (c @ status_lines ToJSON ws)
                                  else readFile fs p))"
  using assms
proof (induction ws arbitrary: fs c)
  case Nil
  then show ?case by (auto simp: status_lines_def)
next
  case (Cons x ws)
  let ?fs = "fs\<lparr>files := AList.update (statusFile w) (c @ ToJSON x @ [LF]) (files fs)\<rparr>"
  have w1: "Write ToJSON s fs x = (None, s, ?fs)"
    using Cons.prems(1,2) by (simp add: Write_def writer_write_def)
  have r: "readFile ?fs (statusFile w) = Some (c @ ToJSON x @ [LF])" by simp
  have "Writes ToJSON s ?fs ws = (s', fs')" using Cons.prems(3) w1 by simp
  from Cons.IH [OF Cons.prems(1) r this]
  show ?case by (auto simp: status_lines_def)
qed

lemma lines_from_terminated:
  "p = [] \<or> last p = LF \<Longrightarrow>
   lines_from cur (p @ q)
   = (if p = [] then lines_from cur q
      else (fst (lines_from cur p) @ fst (lines_from [] q), snd (lines_from [] q)))"
proof (induction p arbitrary: cur)
  case Nil
  then show ?case by simp
next
  case (Cons a p)
  show ?case
  proof (cases "p = []")
    case True
    then have "a = LF" using Cons.prems by simp
    then show ?thesis using True by (simp split: prod.splits)
  next
    case False
    then have "p = [] \<or> last p = LF" using Cons.prems by simp
    from Cons.IH [OF this] False show ?thesis by (simp split: prod.splits)
  qed
qed

lemma status_lines_terminated:
  "status_lines ToJSON ws = [] \<or> last (status_lines ToJSON ws) = LF"
  by (induction ws rule: rev_induct) (auto simp: status_lines_def)

lemma status_lines_snoc:
  "ws \<noteq> [] \<Longrightarrow>
   status_lines ToJSON ws = status_lines ToJSON (butlast ws) @ ToJSON (last ws) @ [LF]"
  by (induction ws rule: rev_induct) (auto simp: status_lines_def)

lemma file_lines_last_line:
  assumes "p = [] \<or> last p = LF" and "LF \<notin> set l"
  shows "file_lines (p @ l @ [LF]) = file_lines p @ [l]"
    and "partial_tail (p @ l @ [LF]) = []"
proof -
  have l: "lines_from [] (l @ LF # []) = ([l], [])"
    using lines_from_line [OF assms(2), of "[]" "[]"] by simp
  show "file_lines (p @ l @ [LF]) = file_lines p @ [l]"
    using lines_from_terminated [OF assms(1), of "[]" "l @ [LF]"] l
    by (auto simp: file_lines_def)
  show "partial_tail (p @ l @ [LF]) = []"
    using lines_from_terminated [OF assms(1), of "[]" "l @ [LF]"] l
    by (auto simp: partial_tail_def)
qed

lemma parse_last_written:
  assumes "ws \<noteq> []" and "readFile fs sf = Some (status_lines ToJSON ws)"
    and "StatusFromJSON (ToJSON (last ws)) = Some (last ws)"
    and "LF \<notin> set (ToJSON (last ws))" and "ToJSON (last ws) \<noteq> []"
    and "last (ToJSON (last ws)) \<noteq> CR"
  shows "ParseStatusFile StatusFromJSON fs sf = Inr (last ws)"
proof -
  let ?p = "status_lines ToJSON (butlast ws)"
  let ?l = "ToJSON (last ws)"
  have c: "status_lines ToJSON ws = ?p @ ?l @ [LF]" by (rule status_lines_snoc [OF assms(1)])
  have t: "?p = [] \<or> last ?p = LF" by (rule status_lines_terminated)
  have fl: "file_lines (?p @ ?l @ [LF]) = file_lines ?p @ [?l]"
    and pt: "partial_tail (?p @ ?l @ [LF]) = []"
    using file_lines_last_line [OF t assms(4)] by simp_all
  have ch: "chompCR ?l = ?l" using assms(6) by (simp add: chompCR_def)
  have "ParseStatusFile StatusFromJSON fs sf
        = last_or_EOF (latest_parseable StatusFromJSON (map chompCR (file_lines (?p @ ?l @ [LF]))))"
    using ParseStatusFile_latest_line [of fs sf "?p @ ?l @ [LF]" StatusFromJSON] assms(2) c pt
    by simp
  also have "\<dots> = Inr (last ws)"
    unfolding fl using assms(3,5)
    by (simp add: latest_parseable_def ch keep_latest_def last_or_EOF_def)
  finally show ?thesis .
qed

lemma Compact_fresh:
  assumes parse: "ParseStatusFile StatusFromJSON fs sf = Inr st"
    and name: "craftCompactedFileName sf = Inr cf"
    and ready: "dir_ready fs (Dir sf)"
    and nocf: "\<not> pathExists fs cf"
    and ex: "readFile fs sf \<noteq> None"
  shows "\<exists>fs'. Compact ToJSON StatusFromJSON fs sf = (None, fs') \<and> dirs fs' = dirs fs
           \<and> (\<forall>p. readFile fs' p = (if p = sf then None
                                     else if p = cf then Some (ToJSON st @ [LF])
                                     else readFile fs p))"
proof -
  have d: "Dir cf = Dir sf" using craftCompactedFileName_sibling [OF name] by simp
  have ne: "cf \<noteq> sf" using nocf ex by (auto simp: pathExists_def)
  have m: "MkdirAll fs (Dir cf) = Inr fs"
    unfolding d using ready by (intro MkdirAll_exists) (auto simp: dir_ready_def)
  have dd: "isDir fs (Dir cf)"
    unfolding d using ready ancestors_self [of "Dir sf"] by (auto simp: dir_ready_def)
  have nd: "\<not> isDir fs cf" and nf: "readFile fs cf = None"
    using nocf by (auto simp: pathExists_def)
  let ?fsD = "fs\<lparr>files := AList.update cf [] (files fs)\<rparr>"
  have o: "writer_open fs \<lparr>statusFile = cf\<rparr> = Inr ?fsD"
    using m nocf nd dd
    by (simp add: writer_open_def OpenOrCreateFile_def FileExists_def CreateFile_def Create_def)
  let ?fsE = "?fsD\<lparr>files := AList.update cf ([] @ ToJSON st @ [LF]) (files ?fsD)\<rparr>"
  have w: "writer_write ToJSON ?fsD (Some \<lparr>statusFile = cf\<rparr>) st = Inr ?fsE"
    by (simp add: writer_write_def)
  let ?fs' = "?fsE\<lparr>files := AList.delete sf (files ?fsE)\<rparr>"
  have r: "Remove ?fsE sf = Inr ?fs'"
    using ex ne by (simp add: Remove_def)
  have "Compact ToJSON StatusFromJSON fs sf = (None, ?fs')"
    unfolding Compact_def parse name using o w r by (simp add: Let_def)
  moreover have "dirs ?fs' = dirs fs" by simp
  moreover have "\<forall>p. readFile ?fs' p = (if p = sf then None
                                     else if p = cf then Some (ToJSON st @ [LF])
                                     else readFile fs p)"
    using ne by (simp add: readFile_def update_conv' delete_conv')
  ultimately show ?thesis by blast
qed

text \<open>
  Claim C2, amended. \<open>Open\<close> has succeeded and left an empty status file, the name of the
  status file does not already end in \<open>_c.dat\<close> (so that \<open>craftCompactedFileName\<close> yields a
  name) and no file or directory of the compacted name exists. The last status written
  serialises to one non-empty line that does not end in CR and that the decoder reads back.
  Then, after at least one \<open>Write\<close>, \<open>Close\<close> returns no error, the store has no writer, the
  status file is gone, and in its directory there is the compacted file, whose name ends in
  \<open>_c.dat\<close> and whose content is one line: the serialisation of the last status written.
\<close>

theorem Close_compacts_last_write:
  assumes "Open s fs dagID t requestID = (None, s1, fs1)"
    and "writer s1 = Some w"
    and "readFile fs1 (statusFile w) = Some []"
    and "craftCompactedFileName (statusFile w) = Inr cf"
    and "\<not> pathExists fs1 cf"
    and "ws \<noteq> []"
    and "StatusFromJSON (ToJSON (last ws)) = Some (last ws)"
    and "LF \<notin> set (ToJSON (last ws))"
    and "ToJSON (last ws) \<noteq> []"
    and "last (ToJSON (last ws)) \<noteq> CR"
    and "Writes ToJSON s1 fs1 ws = (s2, fs2)"
    and "Close ToJSON StatusFromJSON s2 fs2 = (err, s3, fs3)"
  shows "err = None \<and> writer s3 = None
         \<and> readFile fs3 (statusFile w) = None
         \<and> readFile fs3 cf = Some (ToJSON (last ws) @ [LF])
         \<and> file_lines (ToJSON (last ws) @ [LF]) = [ToJSON (last ws)]
         \<and> partial_tail (ToJSON (last ws) @ [LF]) = []
         \<and> HasSuffix cf compactedFileSuffix \<and> Dir cf = Dir (statusFile w)
         \<and> cf \<noteq> statusFile w"
proof -
  let ?sf = "statusFile w"
  obtain w' where w': "writer s1 = Some w'" and ready1: "dir_ready fs1 (Dir (statusFile w'))"
    using Open_success [OF assms(1)] by blast
  then have ready1: "dir_ready fs1 (Dir ?sf)" using assms(2) by simp
  have wr: "s2 = s1" "dirs fs2 = dirs fs1"
    "\<And>p. readFile fs2 p = (if p = ?sf then Some ([] @ status_lines ToJSON ws) else readFile fs1 p)"
    using Writes_open [OF assms(2,3,11)] by simp_all
  have ne: "cf \<noteq> ?sf" using assms(3,5) by (auto simp: pathExists_def)
  have r2: "readFile fs2 ?sf = Some (status_lines ToJSON ws)" using wr(3) by simp
  have parse: "ParseStatusFile StatusFromJSON fs2 ?sf = Inr (last ws)"
    using assms(6) r2 assms(7,8,9,10) by (rule parse_last_written)
  have ready2: "dir_ready fs2 (Dir ?sf)"
    using ready1 wr(2,3) assms(3) by (auto simp: dir_ready_def isDir_def)
  have "\<And>a. readFile fs2 a \<noteq> None \<Longrightarrow> readFile fs1 a \<noteq> None"
    using wr(3) assms(3) by (auto split: if_splits)
  then have bf: "below_file fs2 cf \<Longrightarrow> below_file fs1 cf"
    unfolding below_file_def list_ex_iff by blast
  have nocf2: "\<not> pathExists fs2 cf"
    using assms(5) wr(2,3) ne bf by (auto simp: pathExists_def isDir_def)
  have ex2: "readFile fs2 ?sf \<noteq> None" using r2 by simp
  obtain fs' where c: "Compact ToJSON StatusFromJSON fs2 ?sf = (None, fs')"
    and rd: "\<And>p. readFile fs' p = (if p = ?sf then None
                                     else if p = cf then Some (ToJSON (last ws) @ [LF])
                                     else readFile fs2 p)"
    using Compact_fresh [OF parse assms(4) ready2 nocf2 ex2, of ToJSON] by blast
  have cl: "Close ToJSON StatusFromJSON s2 fs2 = (None, s2\<lparr>writer := None\<rparr>, fs')"
    using assms(2) wr(1) c by (simp add: Close_def)
  have e: "err = None" "s3 = s2\<lparr>writer := None\<rparr>" "fs3 = fs'" using cl assms(12) by simp_all
  have one: "file_lines (ToJSON (last ws) @ [LF]) = [ToJSON (last ws)]"
    "partial_tail (ToJSON (last ws) @ [LF]) = []"
    using file_lines_last_line [of "[]", OF _ assms(8)] by (simp_all add: file_lines_def)
  show ?thesis
    using e rd ne one craftCompactedFileName_sibling [OF assms(4)] by simp
qed

text \<open>A store below \<open>/b\<close> on an empty file system, and two writes of one run.\<close>

definition sample_store :: JSONDB where
  "sample_store = \<lparr>baseDir = ''/b'', writer = None, latestStatusToday = False\<rparr>"

definition empty_filesys :: filesys where
  "empty_filesys = \<lparr>files = [], dirs = []\<rparr>"

definition sample_writes :: "string \<Rightarrow> Status list" where
  "sample_writes r = [sample_status ''hello'' r StatusRunning, sample_status ''hello'' r StatusSuccess]"

definition sample_run :: "string \<Rightarrow> error option \<times> JSONDB \<times> filesys" where
  "sample_run r =
     (case Open sample_store empty_filesys ''hello'' sample_time r of
        (e1, s1, fs1) \<Rightarrow>
          (case Writes sample_ToJSON s1 fs1 (sample_writes r) of
             (s2, fs2) \<Rightarrow> Close sample_ToJSON sample_StatusFromJSON s2 fs2))"

theorem Close_compacts_last_write_witness:
  "Open sample_store empty_filesys ''hello'' sample_time ''abcd1234efgh''
   = (None,
      \<lparr>baseDir = ''/b'',
         writer = Some \<lparr>statusFile = ''/b/status/2024/01/02/hello.20240102.03:04:05.000.abcd1234.dat''\<rparr>,
         latestStatusToday = False\<rparr>,
      \<lparr>files = [(''/b/index/hello/hello.20240102.03:04:05.000.abcd1234.dat'', []),
                (''/b/status/2024/01/02/hello.20240102.03:04:05.000.abcd1234.dat'', [])],
        dirs = [''/b'', ''/b/index'', ''/b/index/hello'', ''/b/status'', ''/b/status/2024'',
                ''/b/status/2024/01'', ''/b/status/2024/01/02'']\<rparr>)
   \<and> fst (sample_run ''abcd1234efgh'') = None
   \<and> writer (fst (snd (sample_run ''abcd1234efgh''))) = None
   \<and> readFile (snd (snd (sample_run ''abcd1234efgh'')))
         ''/b/status/2024/01/02/hello.20240102.03:04:05.000.abcd1234.dat'' = None
   \<and> readFile (snd (snd (sample_run ''abcd1234efgh'')))
         ''/b/status/2024/01/02/hello.20240102.03:04:05.000.abcd1234_c.dat''
       = Some (sample_ToJSON (sample_status ''hello'' ''abcd1234efgh'' StatusSuccess) @ [LF])"
proof -
  let ?sf = "''/b/status/2024/01/02/hello.20240102.03:04:05.000.abcd1234.dat''"
  let ?cf = "''/b/status/2024/01/02/hello.20240102.03:04:05.000.abcd1234_c.dat''"
  let ?w = "\<lparr>statusFile = ?sf\<rparr>"
  let ?s1 = "\<lparr>baseDir = ''/b'', writer = Some ?w, latestStatusToday = False\<rparr>"
  let ?fs1 = "\<lparr>files = [(''/b/index/hello/hello.20240102.03:04:05.000.abcd1234.dat'', []), (?sf, [])],
               dirs = [''/b'', ''/b/index'', ''/b/index/hello'', ''/b/status'', ''/b/status/2024'',
                       ''/b/status/2024/01'', ''/b/status/2024/01/02'']\<rparr>"
  let ?ws = "sample_writes ''abcd1234efgh''"
  have h1: "Open sample_store empty_filesys ''hello'' sample_time ''abcd1234efgh'' = (None, ?s1, ?fs1)"
    by code_simp
  have h2: "writer ?s1 = Some ?w" by simp
  have h3: "readFile ?fs1 (statusFile ?w) = Some []" by code_simp
  have h4: "craftCompactedFileName (statusFile ?w) = Inr ?cf" by code_simp
  have h5: "\<not> pathExists ?fs1 ?cf" by code_simp
  have h6: "?ws \<noteq> []" by code_simp
  have h7: "sample_StatusFromJSON (sample_ToJSON (last ?ws)) = Some (last ?ws)" by code_simp
  have h8: "LF \<notin> set (sample_ToJSON (last ?ws))" by code_simp
  have h9: "sample_ToJSON (last ?ws) \<noteq> []" by code_simp
  have h10: "last (sample_ToJSON (last ?ws)) \<noteq> CR" by code_simp
  have l: "last ?ws = sample_status ''hello'' ''abcd1234efgh'' StatusSuccess"
    by (simp add: sample_writes_def)
  obtain s2 fs2 where h11: "Writes sample_ToJSON ?s1 ?fs1 ?ws = (s2, fs2)"
    by (cases "Writes sample_ToJSON ?s1 ?fs1 ?ws") blast
  obtain err s3 fs3 where h12: "Close sample_ToJSON sample_StatusFromJSON s2 fs2 = (err, s3, fs3)"
    by (cases "Close sample_ToJSON sample_StatusFromJSON s2 fs2") blast
  have r: "sample_run ''abcd1234efgh'' = (err, s3, fs3)"
    unfolding sample_run_def h1 using h11 h12 by simp
  have "err = None \<and> writer s3 = None \<and> readFile fs3 (statusFile ?w) = None
        \<and> readFile fs3 ?cf = Some (sample_ToJSON (last ?ws) @ [LF])"
    using Close_compacts_last_write [OF h1 h2 h3 h4 h5 h6 h7 h8 h9 h10 h11 h12] by blast
  then have "fst (sample_run ''abcd1234efgh'') = None
        \<and> writer (fst (snd (sample_run ''abcd1234efgh''))) = None
        \<and> readFile (snd (snd (sample_run ''abcd1234efgh''))) ?sf = None
        \<and> readFile (snd (snd (sample_run ''abcd1234efgh''))) ?cf
            = Some (sample_ToJSON (sample_status ''hello'' ''abcd1234efgh'' StatusSuccess) @ [LF])"
    unfolding r l by simp
  with h1 show ?thesis by blast
qed

text \<open>
  Claim C2 as stated fails for a request ID whose first eight characters end in \<open>_c\<close>: the
  status file is then named \<open>....ab_c.dat\<close>, \<open>craftCompactedFileName\<close> takes it for a compacted
  file and answers \<open>ErrFileIsCompacted\<close>, \<open>Close\<close> logs the error and returns nil. The status
  file is still there with both lines, and no other file has been written.
\<close>

theorem Close_keeps_uncompacted_file_counterexample:
  "sample_run ''ab_c''
   = (None, sample_store,
      \<lparr>files = [(''/b/index/hello/hello.20240102.03:04:05.000.ab_c.dat'', []),
                (''/b/status/2024/01/02/hello.20240102.03:04:05.000.ab_c.dat'',
                 ''{Name:hello,RequestId:ab_c,Status:1}'' @ [LF]
                 @ ''{Name:hello,RequestId:ab_c,Status:4}'' @ [LF])],
        dirs = [''/b'', ''/b/index'', ''/b/index/hello'', ''/b/status'', ''/b/status/2024'',
                ''/b/status/2024/01'', ''/b/status/2024/01/02'']\<rparr>)"
proof -
  let ?sf = "''/b/status/2024/01/02/hello.20240102.03:04:05.000.ab_c.dat''"
  let ?w = "\<lparr>statusFile = ?sf\<rparr>"
  let ?s1 = "\<lparr>baseDir = ''/b'', writer = Some ?w, latestStatusToday = False\<rparr>"
  let ?dirs = "[''/b'', ''/b/index'', ''/b/index/hello'', ''/b/status'', ''/b/status/2024'',
                ''/b/status/2024/01'', ''/b/status/2024/01/02'']"
  let ?fs1 = "\<lparr>files = [(''/b/index/hello/hello.20240102.03:04:05.000.ab_c.dat'', []), (?sf, [])],
               dirs = ?dirs\<rparr>"
  let ?fs2 = "\<lparr>files = [(''/b/index/hello/hello.20240102.03:04:05.000.ab_c.dat'', []),
                (?sf, ''{Name:hello,RequestId:ab_c,Status:1}'' @ [LF]
                      @ ''{Name:hello,RequestId:ab_c,Status:4}'' @ [LF])],
               dirs = ?dirs\<rparr>"
  let ?ws = "sample_writes ''ab_c''"
  have h1: "Open sample_store empty_filesys ''hello'' sample_time ''ab_c'' = (None, ?s1, ?fs1)"
    by code_simp
  have h2: "Writes sample_ToJSON ?s1 ?fs1 ?ws = (?s1, ?fs2)" by code_simp
  have h3: "?ws \<noteq> []" by code_simp
  have h4: "readFile ?fs2 ?sf = Some (status_lines sample_ToJSON ?ws)" by code_simp
  have h5: "sample_StatusFromJSON (sample_ToJSON (last ?ws)) = Some (last ?ws)" by code_simp
  have h6: "LF \<notin> set (sample_ToJSON (last ?ws))" by code_simp
  have h7: "sample_ToJSON (last ?ws) \<noteq> []" by code_simp
  have h8: "last (sample_ToJSON (last ?ws)) \<noteq> CR" by code_simp
  have parse: "ParseStatusFile sample_StatusFromJSON ?fs2 ?sf = Inr (last ?ws)"
    using h3 h4 h5 h6 h7 h8 by (rule parse_last_written)
  have name: "craftCompactedFileName ?sf = Inl ErrFileIsCompacted" by code_simp
  have c: "Compact sample_ToJSON sample_StatusFromJSON ?fs2 ?sf = (Some ErrFileIsCompacted, ?fs2)"
    unfolding Compact_def parse name by simp
  have cl: "Close sample_ToJSON sample_StatusFromJSON ?s1 ?fs2 = (None, ?s1\<lparr>writer := None\<rparr>, ?fs2)"
    unfolding Close_def using c by simp
  show ?thesis
    unfolding sample_run_def h1 using h2 cl by (simp add: sample_store_def)
qed


section \<open>Paths below the base directory\<close>

text \<open>
  A proper name is an element of a path that \<open>Clean\<close> keeps as it is. \<open>Join\<close> of a base
  directory and proper names is a prefix, which depends on the base directory only,
  followed by the names with separators between them.
\<close>

definition proper_name :: "string \<Rightarrow> bool" where
  "proper_name n = (n \<noteq> [] \<and> n \<noteq> ''.'' \<and> n \<noteq> ''..'' \<and> Separator \<notin> set n)"

definition dir_prefix :: "bool \<Rightarrow> string list \<Rightarrow> string" where
  "dir_prefix r st =
     (if st = [] then (if r then [Separator] else []) else render r st @ [Separator])"

definition join_prefix :: "string \<Rightarrow> string" where
  "join_prefix B = (if B = [] then [] else dir_prefix (rooted B) (clean_stack B))"

lemma normal_append_proper:
  "normal r st \<Longrightarrow> list_all proper_name es \<Longrightarrow> normal r (st @ es)"
proof (induction es rule: rev_induct)
  case Nil
  then show ?case by simp
next
  case (snoc e es)
  then have n: "normal r (st @ es)" and p: "proper_name e" by simp_all
  have "dotdot_prefix ((st @ es) @ [e])"
    using n p by (intro dotdot_prefix_snoc_real) (auto simp: normal_def proper_name_def)
  then show ?case using n p by (auto simp: normal_def proper_name_def)
qed

lemma join_sep_append:
  "es \<noteq> [] \<Longrightarrow> join_sep (st @ es) = (if st = [] then join_sep es else join_sep st @ Separator # join_sep es)"
proof (induction st rule: join_sep.induct)
  case 1
  then show ?case by simp
next
  case (2 x)
  then show ?case by (cases es) auto
next
  case (3 x y ys)
  then show ?case by simp
qed

lemma render_append:
  assumes "normal r (st @ es)" and "es \<noteq> []"
  shows "render r (st @ es) = dir_prefix r st @ join_sep es"
  using assms(2) by (auto simp: render_def dir_prefix_def join_sep_append)

lemma Join_proper_render:
  assumes "list_all proper_name es" and "es \<noteq> []"
  shows "\<exists>r st. normal r (st @ es) \<and> Join (B # es) = render r (st @ es)
                \<and> join_prefix B = dir_prefix r st"
proof (cases "B = []")
  case True
  obtain e es' where es: "es = e # es'" using assms(2) by (cases es) auto
  have e: "e \<noteq> []" "hd e \<noteq> Separator" using assms(1) es by (cases e; auto simp: proper_name_def)+
  have n: "normal False ([] @ es)" using normal_append_proper [OF normal_Nil assms(1)] by simp
  let ?j = "join_sep es"
  have jne: "?j \<noteq> []" and hj: "hd ?j = hd e" using join_sep_hd [of es] es e by simp_all
  have r: "rooted ?j = False" using jne hj e by (simp add: rooted_def)
  have ns: "\<forall>c\<in>set es. Separator \<notin> set c" using assms(1) by (auto simp: list_all_iff proper_name_def)
  have "clean_stack ?j = foldl (clean_step False) [] es"
    unfolding clean_stack_def r using split_join_sep [OF assms(2) ns] by simp
  also have "\<dots> = es" using foldl_normal_id [OF n] by simp
  finally have cs: "clean_stack ?j = es" .
  have "Join (B # es) = Clean ?j" using True es e by simp
  also have "\<dots> = render False es" using Clean_render [OF jne] r cs by simp
  finally have "Join (B # es) = render False ([] @ es)" by simp
  moreover have "join_prefix B = dir_prefix False []" using True by (simp add: join_prefix_def dir_prefix_def)
  ultimately show ?thesis using n by blast
next
  case False
  let ?r = "rooted B" and ?st = "clean_stack B"
  let ?p = "B @ Separator # join_sep es"
  have n: "normal ?r (?st @ es)" by (rule normal_append_proper [OF normal_clean_stack assms(1)])
  have j: "join_sep (B # es) = ?p" using assms(2) by (cases es) auto
  have pne: "?p \<noteq> []" by simp
  have r: "rooted ?p = ?r" using False by (simp add: rooted_def hd_append)
  have ns: "\<forall>c\<in>set es. Separator \<notin> set c" using assms(1) by (auto simp: list_all_iff proper_name_def)
  have "clean_stack ?p = foldl (clean_step ?r) [] (split_sep B @ es)"
    unfolding clean_stack_def r using split_join_sep [OF assms(2) ns] by (simp add: split_sep_append)
  also have "\<dots> = foldl (clean_step ?r) ?st es" by (simp add: clean_stack_def)
  also have "\<dots> = ?st @ es" by (rule foldl_normal_id [OF n])
  finally have cs: "clean_stack ?p = ?st @ es" .
  have "Join (B # es) = Clean ?p" using False j by simp
  also have "\<dots> = render ?r (?st @ es)" using Clean_render [OF pne] r cs by simp
  finally have "Join (B # es) = render ?r (?st @ es)" .
  moreover have "join_prefix B = dir_prefix ?r ?st" using False by (simp add: join_prefix_def)
  ultimately show ?thesis using n by blast
qed

lemma Join_proper:
  assumes "list_all proper_name es" and "es \<noteq> []"
  shows "Join (B # es) = join_prefix B @ join_sep es"
proof -
  obtain r st where "normal r (st @ es)" "Join (B # es) = render r (st @ es)"
    "join_prefix B = dir_prefix r st"
    using Join_proper_render [OF assms] by blast
  then show ?thesis using render_append [OF _ assms(2)] by simp
qed

lemma Join_child:
  assumes "normal r st" and "st \<noteq> []" and "proper_name n"
  shows "Join [render r st, n] = render r st @ Separator # n"
    and "Base (render r st @ Separator # n) = n"
    and "Ext (render r st @ Separator # n) = Ext n"
proof -
  have n: "normal r (st @ [n])" using normal_append_proper [OF assms(1), of "[n]"] assms(3) by simp
  have s: "split_sep n = [n]" using assms(3) by (simp add: split_sep_no_sep proper_name_def)
  have f: "foldl (clean_step r) st [n] = st @ [n]" by (rule foldl_normal_id [OF n])
  have rs: "render r (st @ [n]) = render r st @ Separator # n"
    using render_snoc [OF n] assms(2) by simp
  show "Join [render r st, n] = render r st @ Separator # n"
    using Join_render [OF assms(1), of n] s f rs by simp
  show "Base (render r st @ Separator # n) = n" using Base_render_snoc [OF n] rs by simp
  show "Ext (render r st @ Separator # n) = Ext n" using Ext_render_snoc [OF n] rs by simp
qed

lemma Join_proper_child:
  assumes "list_all proper_name es" and "es \<noteq> []" and "proper_name n"
  shows "Join [Join (B # es), n] = Join (B # es) @ Separator # n"
    and "Base (Join (B # es) @ Separator # n) = n"
    and "Ext (Join (B # es) @ Separator # n) = Ext n"
proof -
  obtain r st where n: "normal r (st @ es)" and j: "Join (B # es) = render r (st @ es)"
    using Join_proper_render [OF assms(1,2)] by blast
  have ne: "st @ es \<noteq> []" using assms(2) by simp
  show "Join [Join (B # es), n] = Join (B # es) @ Separator # n"
    "Base (Join (B # es) @ Separator # n) = n"
    "Ext (Join (B # es) @ Separator # n) = Ext n"
    unfolding j using Join_child [OF n ne assms(3)] by simp_all
qed

section \<open>Index file names under a directory\<close>

text \<open>
  A match of \<open>indexFileRegExp\<close> has a colon twelve characters after its start and no
  separator before it: in a path whose directory part has no colon the match lies in
  the file name.
\<close>

lemma digits_proper:
  assumes "list_all is_digit y" and "y \<noteq> []"
  shows "proper_name y" and "\<not> hasMeta y"
proof -
  have d: "\<And>c. is_digit c \<Longrightarrow> c \<noteq> Separator \<and> c \<noteq> CHR ''.'' \<and> c \<noteq> CHR ''*''
            \<and> c \<noteq> CHR ''?'' \<and> c \<noteq> CHR ''['' \<and> c \<noteq> CHR 0x5C"
    by (auto simp: is_digit_def Separator_def less_eq_char_def)
  have "hd y \<noteq> CHR ''.''" using assms d by (cases y) auto
  then have "y \<noteq> ''.''" "y \<noteq> ''..''" by auto
  moreover have "Separator \<notin> set y" using assms(1) d by (auto simp: list_all_iff)
  ultimately show "proper_name y" using assms(2) by (simp add: proper_name_def)
  show "\<not> hasMeta y" using assms(1) d by (auto simp: hasMeta_def list_all_iff list_ex_iff)
qed

lemma match_here_shape:
  assumes "match_here s = Some (y, m, d, r)"
  shows "\<exists>u v. s = u @ CHR '':'' # v \<and> Separator \<notin> set u
           \<and> list_all is_digit y \<and> length y = 4
           \<and> list_all is_digit m \<and> length m = 2
           \<and> list_all is_digit d \<and> length d = 2"
proof -
  from assms obtain s1 s2 s3 s4 h s5 s6 where
    1: "digitsN 4 s = Some (y, s1)" and 2: "digitsN 2 s1 = Some (m, s2)"
    and 3: "digitsN 2 s2 = Some (d, s3)" and 4: "lit (CHR ''.'') s3 = Some s4"
    and 5: "digitsN 2 s4 = Some (h, s5)" and 6: "lit (CHR '':'') s5 = Some s6"
    unfolding match_here_def
    by (auto simp: bind_eq_Some_conv Let_def split: prod.splits if_splits)
  have dg: "\<And>n a b c. digitsN n a = Some (b, c) \<Longrightarrow> a = b @ c \<and> list_all is_digit b \<and> length b = n"
    by (auto simp: digitsN_def split: if_splits)
  have lt: "\<And>ch a b. lit ch a = Some b \<Longrightarrow> a = ch # b"
    by (auto simp: lit_def split: list.splits if_splits)
  have nd: "\<And>b. list_all is_digit b \<Longrightarrow> Separator \<notin> set b"
    by (auto simp: list_all_iff is_digit_def Separator_def less_eq_char_def)
  have s: "s = (y @ m @ d @ CHR ''.'' # h) @ CHR '':'' # s6"
    using dg [OF 1] dg [OF 2] dg [OF 3] lt [OF 4] dg [OF 5] lt [OF 6] by simp
  have "Separator \<notin> set (y @ m @ d @ CHR ''.'' # h)"
    using nd dg [OF 1] dg [OF 2] dg [OF 3] dg [OF 5] by (auto simp: Separator_def)
  then show ?thesis using s dg [OF 1] dg [OF 2] dg [OF 3] by blast
qed

lemma match_here_in_dir:
  assumes "CHR '':'' \<notin> set x"
  shows "match_here (x @ Separator # n) = None"
proof (rule ccontr)
  assume "match_here (x @ Separator # n) \<noteq> None"
  then obtain y m d r where "match_here (x @ Separator # n) = Some (y, m, d, r)"
    by (cases "match_here (x @ Separator # n)") auto
  then obtain u v where e: "x @ Separator # n = u @ CHR '':'' # v" and u: "Separator \<notin> set u"
    using match_here_shape by blast
  from e consider w where "x = u @ w" "w @ Separator # n = CHR '':'' # v"
    | w where "x @ w = u" "Separator # n = w @ CHR '':'' # v"
    by (auto simp: append_eq_append_conv2)
  then show False
  proof cases
    case 1
    then show ?thesis using assms by (cases w) (auto simp: Separator_def)
  next
    case 2
    then show ?thesis using u by (cases w) (auto simp: Separator_def)
  qed
qed

lemma FindStringSubmatch_in_dir:
  "CHR '':'' \<notin> set x \<Longrightarrow> FindStringSubmatch (x @ Separator # n) = FindStringSubmatch n"
proof (induction x)
  case Nil
  then show ?case using match_here_in_dir [of "[]" n] by simp
next
  case (Cons c x)
  then show ?case using match_here_in_dir [of "c # x" n] by simp
qed

lemma FindStringSubmatch_shape:
  "FindStringSubmatch s = Some (y, m, d, r) \<Longrightarrow>
   list_all is_digit y \<and> length y = 4 \<and> list_all is_digit m \<and> length m = 2
   \<and> list_all is_digit d \<and> length d = 2"
proof (induction s)
  case Nil
  then show ?case using match_here_shape [of "[]" y m d r] by simp
next
  case (Cons c s)
  then show ?case using match_here_shape [of "c # s" y m d r]
    by (cases "match_here (c # s)") auto
qed

lemma ValidFilename_no_sep: "Separator \<notin> set (ValidFilename str ''_'')"
proof -
  let ?s1 = "concat (map (\<lambda>c. if filenameReserved c then ''_'' else [c]) str)"
  have 1: "Separator \<notin> set ?s1" by (auto simp: filenameReserved_def Separator_def split: if_splits)
  let ?s2 = "if filenameReservedWindowsNames ?s1 then ''_'' else ?s1"
  have 2: "Separator \<notin> set ?s2" using 1 by (auto simp: Separator_def)
  have "Separator \<notin> set (concat (map (\<lambda>c. if c = CHR '' '' then ''_'' else [c]) ?s2))"
    using 2 by (auto simp: Separator_def split: if_splits)
  then show ?thesis by (simp add: ValidFilename_def Let_def)
qed

lemma normalizedID_no_sep: "Separator \<notin> set (normalizedID dagID)"
  unfolding normalizedID_def by (rule ValidFilename_no_sep)

section \<open>The file system after \<open>os.Rename\<close> of a directory\<close>

text \<open>
  \<open>moved\<close> is the file system that \<open>Rename_os\<close> returns for a directory. A path is
  \<open>below\<close> a directory when it continues the directory and a separator; it is \<open>outside\<close>
  when it is neither one of the two directories nor below one of them. \<open>paths\<close> are the
  files and directories of a file system.
\<close>

definition below :: "string \<Rightarrow> string \<Rightarrow> bool" where
  "below d p = HasPrefix p (d @ [Separator])"

definition outside :: "string \<Rightarrow> string \<Rightarrow> string \<Rightarrow> bool" where
  "outside old new p = (p \<noteq> old \<and> \<not> below old p \<and> p \<noteq> new \<and> \<not> below new p)"

definition moved :: "string \<Rightarrow> string \<Rightarrow> filesys \<Rightarrow> filesys" where
  "moved old new fs =
     fs\<lparr>files := map (\<lambda>(p, c). (reprefix old new p, c)) (files fs),
        dirs := remdups (map (reprefix old new) (dirs fs))\<rparr>"

lemma HasPrefix_append_same [simp]: "HasPrefix (P @ x) (P @ y) = HasPrefix x y"
  by (simp add: HasPrefix_def)

lemma below_iff: "below d p = (\<exists>rest. p = d @ Separator # rest)"
proof
  assume "below d p"
  then have "take (Suc (length d)) p = d @ [Separator]" by (simp add: below_def HasPrefix_def)
  then have "p = (d @ [Separator]) @ drop (Suc (length d)) p"
    using append_take_drop_id [of "Suc (length d)" p] by simp
  then show "\<exists>rest. p = d @ Separator # rest" by auto
next
  assume "\<exists>rest. p = d @ Separator # rest"
  then show "below d p" by (auto simp: below_def HasPrefix_def)
qed

lemma reprefix_cases:
  "(q = old \<and> reprefix old new q = new)
   \<or> (\<exists>rest. q = old @ Separator # rest \<and> reprefix old new q = new @ Separator # rest)
   \<or> (q \<noteq> old \<and> \<not> below old q \<and> reprefix old new q = q)"
proof (cases "q = old")
  case True
  then show ?thesis by (simp add: reprefix_def)
next
  case False
  show ?thesis
  proof (cases "below old q")
    case True
    then obtain rest where "q = old @ Separator # rest" using below_iff by blast
    then show ?thesis using False by (auto simp: reprefix_def HasPrefix_def Separator_def)
  next
    case b: False
    then show ?thesis using False by (simp add: reprefix_def below_def Separator_def)
  qed
qed

lemma reprefix_outside:
  assumes "outside old new p"
  shows "(reprefix old new q = p) = (q = p)"
proof -
  from assms have o: "p \<noteq> old" "\<not> below old p" "p \<noteq> new" "\<not> below new p"
    by (simp_all add: outside_def)
  consider (a) "q = old" "reprefix old new q = new"
    | (b) rest where "q = old @ Separator # rest" "reprefix old new q = new @ Separator # rest"
    | (c) "reprefix old new q = q"
    using reprefix_cases [of q old new] by blast
  then show ?thesis
  proof cases
    case a
    then show ?thesis using o by auto
  next
    case b
    have "below old q" using b(1) below_iff by blast
    moreover have "below new (reprefix old new q)" using b(2) below_iff by blast
    ultimately show ?thesis using o by auto
  next
    case c
    then show ?thesis by simp
  qed
qed

lemma image_reprefix_outside:
  assumes "outside old new p"
  shows "(p \<in> reprefix old new ` S) = (p \<in> S)"
proof
  assume "p \<in> reprefix old new ` S"
  then obtain q where q: "q \<in> S" "reprefix old new q = p" by auto
  then have "q = p" using reprefix_outside [OF assms, of q] by blast
  then show "p \<in> S" using q by simp
next
  assume a: "p \<in> S"
  have "reprefix old new p = p" using reprefix_outside [OF assms, of p] by blast
  then have "p = reprefix old new p" by simp
  then show "p \<in> reprefix old new ` S" using a by (rule image_eqI)
qed

lemma map_of_map_keys:
  assumes "\<And>q. (f q = p) = (q = p)"
  shows "map_of (map (\<lambda>(q, c). (f q, c)) xs) p = map_of xs p"
proof (induction xs)
  case Nil
  show ?case by simp
next
  case (Cons x xs)
  obtain q c where x: "x = (q, c)" by (cases x)
  show ?case
  proof (cases "q = p")
    case True
    then have "f q = p" using assms by blast
    then show ?thesis using True x by simp
  next
    case False
    then have "f q \<noteq> p" using assms by blast
    then show ?thesis using False x Cons.IH by simp
  qed
qed

lemma readFile_moved:
  assumes "outside old new p"
  shows "readFile (moved old new fs) p = readFile fs p"
  using map_of_map_keys [of "reprefix old new" p "files fs"] reprefix_outside [OF assms]
  by (simp add: readFile_def moved_def)

lemma isDir_moved:
  assumes "outside old new p"
  shows "isDir (moved old new fs) p = isDir fs p"
proof -
  have "(p \<in> reprefix old new ` set (dirs fs)) = (p \<in> set (dirs fs))"
    by (rule image_reprefix_outside [OF assms])
  then show ?thesis by (simp add: isDir_def moved_def)
qed

lemma ParseStatusFile_cong:
  "readFile fs' f = readFile fs f \<Longrightarrow>
   ParseStatusFile StatusFromJSON fs' f = ParseStatusFile StatusFromJSON fs f"
  by (simp add: ParseStatusFile_def)

lemma child_name_iff:
  assumes "d \<noteq> ''.''" and "d \<noteq> ''/''"
  shows "(child_name d p = Some n) = (p = d @ Separator # n \<and> proper_name n)"
proof
  assume c: "child_name d p = Some n"
  then have h: "HasPrefix p (d @ ''/'')" and n: "n = drop (length (d @ ''/'')) p" and pn: "proper_name n"
    using assms by (auto simp: child_name_def Let_def proper_name_def split: if_splits)
  have "p = take (length (d @ ''/'')) p @ n" unfolding n by simp
  then have "p = (d @ ''/'') @ n" using h by (simp add: HasPrefix_def)
  then show "p = d @ Separator # n \<and> proper_name n" using pn by (simp add: Separator_def)
next
  assume "p = d @ Separator # n \<and> proper_name n"
  then show "child_name d p = Some n"
    using assms by (auto simp: child_name_def Let_def proper_name_def HasPrefix_def Separator_def)
qed

definition paths :: "filesys \<Rightarrow> string set" where
  "paths fs = fst ` set (files fs) \<union> set (dirs fs)"

lemma set_map_filter_iff: "(n \<in> set (List.map_filter f xs)) = (\<exists>x\<in>set xs. f x = Some n)"
  by (induction xs) (auto simp: List.map_filter_simps split: option.splits)

lemma Readdirnames_iff:
  assumes "d \<noteq> ''.''" and "d \<noteq> ''/''"
  shows "(n \<in> set (Readdirnames fs d)) = (proper_name n \<and> d @ Separator # n \<in> paths fs)"
proof -
  have "(n \<in> set (Readdirnames fs d)) = (\<exists>p\<in>paths fs. child_name d p = Some n)"
    by (simp add: Readdirnames_def set_map_filter_iff paths_def)
  also have "\<dots> = (proper_name n \<and> d @ Separator # n \<in> paths fs)"
    using child_name_iff [OF assms] by auto
  finally show ?thesis .
qed

lemma child_name_proper: "child_name d p = Some n \<Longrightarrow> proper_name n"
  unfolding child_name_def Let_def proper_name_def by (auto split: if_splits)

lemma Readdirnames_proper:
  "n \<in> set (Readdirnames fs d) \<Longrightarrow> proper_name n"
  using child_name_proper by (auto simp: Readdirnames_def set_map_filter_iff)

lemma fst_map_keys: "fst ` set (map (\<lambda>(p, c). (f p, c)) xs) = f ` fst ` set xs"
  by (induction xs) auto

lemma paths_moved: "paths (moved old new fs) = reprefix old new ` paths fs"
proof -
  have "fst ` set (files (moved old new fs)) = reprefix old new ` fst ` set (files fs)"
    unfolding moved_def using fst_map_keys [of "reprefix old new" "files fs"] by simp
  moreover have "set (dirs (moved old new fs)) = reprefix old new ` set (dirs fs)"
    by (simp add: moved_def)
  ultimately show ?thesis by (simp only: paths_def image_Un)
qed

lemma sort_Readdirnames:
  "set (Readdirnames fs' d') = set (Readdirnames fs d) \<Longrightarrow>
   sort (Readdirnames fs' d') = sort (Readdirnames fs d)"
proof -
  assume s: "set (Readdirnames fs' d') = set (Readdirnames fs d)"
  have "\<And>fs d. sort (Readdirnames fs d) = sorted_list_of_set (set (Readdirnames fs d))"
    by (simp add: Readdirnames_def sorted_list_of_set_sort_remdups)
  then show ?thesis using s by simp
qed



lemma Readdirnames_moved_outside:
  assumes "d \<noteq> ''.''" and "d \<noteq> ''/''" and "\<And>n. outside old new (d @ Separator # n)"
  shows "sort (Readdirnames (moved old new fs) d) = sort (Readdirnames fs d)"
proof (rule sort_Readdirnames)
  have "\<And>n. (d @ Separator # n \<in> reprefix old new ` paths fs) = (d @ Separator # n \<in> paths fs)"
    by (rule image_reprefix_outside [OF assms(3)])
  then have k: "\<And>n. (d @ Separator # n \<in> paths (moved old new fs)) = (d @ Separator # n \<in> paths fs)"
    by (simp only: paths_moved)
  show "set (Readdirnames (moved old new fs) d) = set (Readdirnames fs d)"
  proof (rule set_eqI)
    fix n
    show "(n \<in> set (Readdirnames (moved old new fs) d)) = (n \<in> set (Readdirnames fs d))"
      by (simp only: Readdirnames_iff [OF assms(1,2)] k)
  qed
qed

text \<open>The new index directory lists what the old one listed.\<close>

lemma Readdirnames_moved_index:
  assumes "old \<noteq> ''.''" and "old \<noteq> ''/''" and "new \<noteq> ''.''" and "new \<noteq> ''/''"
    and "\<forall>p\<in>paths fs. \<not> below new p"
  shows "sort (Readdirnames (moved old new fs) new) = sort (Readdirnames fs old)"
proof (rule sort_Readdirnames)
  have "\<And>n. (new @ Separator # n \<in> reprefix old new ` paths fs) = (old @ Separator # n \<in> paths fs)"
  proof -
    fix n
    have "\<And>q. q \<in> paths fs \<Longrightarrow>
          (reprefix old new q = new @ Separator # n) = (q = old @ Separator # n)"
    proof -
      fix q assume q: "q \<in> paths fs"
      then have nb: "\<not> below new q" using assms(5) by blast
      show "(reprefix old new q = new @ Separator # n) = (q = old @ Separator # n)"
        using reprefix_cases [of q old new] nb by (auto simp: below_iff)
    qed
    then have h: "\<And>q. q \<in> paths fs \<Longrightarrow>
          (reprefix old new q = new @ Separator # n) = (q = old @ Separator # n)" .
    show "(new @ Separator # n \<in> reprefix old new ` paths fs) = (old @ Separator # n \<in> paths fs)"
    proof
      assume "new @ Separator # n \<in> reprefix old new ` paths fs"
      then obtain q where q: "q \<in> paths fs" "reprefix old new q = new @ Separator # n" by auto
      then have "q = old @ Separator # n" using h by blast
      then show "old @ Separator # n \<in> paths fs" using q by simp
    next
      assume a: "old @ Separator # n \<in> paths fs"
      then have "reprefix old new (old @ Separator # n) = new @ Separator # n" using h by blast
      then have "new @ Separator # n = reprefix old new (old @ Separator # n)" by simp
      then show "new @ Separator # n \<in> reprefix old new ` paths fs" using a by (rule image_eqI)
    qed
  qed
  then have k: "\<And>n. (new @ Separator # n \<in> paths (moved old new fs)) = (old @ Separator # n \<in> paths fs)"
    by (simp only: paths_moved)
  show "set (Readdirnames (moved old new fs) new) = set (Readdirnames fs old)"
  proof (rule set_eqI)
    fix n
    show "(n \<in> set (Readdirnames (moved old new fs) new)) = (n \<in> set (Readdirnames fs old))"
      by (simp only: Readdirnames_iff [OF assms(1,2)] Readdirnames_iff [OF assms(3,4)] k)
  qed
qed

lemma glob_moved_outside:
  assumes "d \<noteq> ''.''" and "d \<noteq> ''/''" and "outside old new d"
    and "\<And>n. outside old new (d @ Separator # n)"
  shows "glob (moved old new fs) d pat = glob fs d pat"
  unfolding glob_def
  using isDir_moved [OF assms(3)] Readdirnames_moved_outside [OF assms(1,2,4)] by simp

lemma glob_moved_index:
  assumes "old \<noteq> ''.''" and "old \<noteq> ''/''" and "new \<noteq> ''.''" and "new \<noteq> ''/''"
    and "\<forall>p\<in>paths fs. \<not> below new p"
    and "isDir fs old"
  shows "glob fs old pat = map (\<lambda>n. Join [old, n]) (filter (matchLoop pat) (sort (Readdirnames fs old)))"
    and "glob (moved old new fs) new pat
         = map (\<lambda>n. Join [new, n]) (filter (matchLoop pat) (sort (Readdirnames fs old)))"
proof -
  show "glob fs old pat = map (\<lambda>n. Join [old, n]) (filter (matchLoop pat) (sort (Readdirnames fs old)))"
    using assms(6) by (simp add: glob_def)
  have "old \<in> set (dirs fs)" using assms(1,2,6) by (simp add: isDir_def)
  then have "reprefix old new old \<in> set (dirs (moved old new fs))"
    by (simp add: moved_def)
  then have "isDir (moved old new fs) new" by (simp add: reprefix_def isDir_def)
  then show "glob (moved old new fs) new pat
         = map (\<lambda>n. Join [new, n]) (filter (matchLoop pat) (sort (Readdirnames fs old)))"
    using Readdirnames_moved_index [OF assms(1,2,3,4,5)] by (simp add: glob_def)
qed

definition bad_pattern :: "string \<Rightarrow> bool" where
  "bad_pattern pat = list_ex (\<lambda>c. c \<in> set ''?['' \<or> c = CHR 0x5C) pat"

lemma Glob_in_dir:
  assumes "\<not> hasMeta d" and "d \<noteq> []" and "Separator \<notin> set pat" and "hasMeta pat"
  shows "Glob fs (d @ Separator # pat)
         = (if bad_pattern pat then Inl (NotModelled ''pattern'') else Inr (glob fs d pat))"
proof -
  let ?p = "d @ Separator # pat"
  have b: "list_ex (\<lambda>c. c \<in> set ''?['' \<or> c = CHR 0x5C) ?p = bad_pattern pat"
    using assms(1) by (auto simp: hasMeta_def bad_pattern_def list_ex_iff Separator_def)
  have m: "hasMeta ?p" using assms(4) by (auto simp: hasMeta_def list_ex_iff)
  have l: "last_elem ?p = pat" by (rule last_elem_append [OF assms(3)])
  have t: "take (length ?p - length pat) ?p = d @ [Separator]" by simp
  have c: "cleanGlobPath (d @ [Separator]) = d" using assms(2) by (simp add: cleanGlobPath_def)
  show ?thesis
    unfolding Glob_def Match_def b Let_def l t c using m assms(1) by simp
qed

lemma list_le_append_left: "(x :: string) \<le> y \<Longrightarrow> pre @ x \<le> pre @ y"
  by (auto simp: list_le_def list_less_def intro: lexord_append_leftI)

lemma sort_map_prefix:
  assumes "sorted (L :: string list)"
  shows "sort (map (\<lambda>n. pre @ n) L) = map (\<lambda>n. pre @ n) L"
proof -
  have "sorted (map (\<lambda>n. pre @ n) L)"
    using assms by (induction L) (auto intro: list_le_append_left)
  then show ?thesis by (rule sorted_sort_id)
qed

section \<open>Lookups by request ID after a rename\<close>

lemma hasMeta_append: "hasMeta (x @ y) = (hasMeta x \<or> hasMeta y)"
  by (auto simp: hasMeta_def list_ex_iff)

lemma status_outside:
  "outside (P @ ''index'' @ Separator # na) (P @ ''index'' @ Separator # nb) (P @ ''status'' @ x)"
proof -
  have 1: "\<And>z. P @ ''status'' @ x \<noteq> P @ ''index'' @ z" by simp
  have 2: "\<And>z. \<not> below (P @ ''index'' @ z) (P @ ''status'' @ x)"
  proof
    fix z assume "below (P @ ''index'' @ z) (P @ ''status'' @ x)"
    then obtain rest where "P @ ''status'' @ x = (P @ ''index'' @ z) @ Separator # rest"
      using below_iff by blast
    then show False by simp
  qed
  show ?thesis unfolding outside_def using 1 2 by blast
qed

lemma findInStatusFiles_cong:
  "(\<And>f. f \<in> set sfs \<Longrightarrow> readFile fs' f = readFile fs f) \<Longrightarrow>
   findInStatusFiles StatusFromJSON fs' reqID sfs = findInStatusFiles StatusFromJSON fs reqID sfs"
proof (induction sfs)
  case Nil
  show ?case by simp
next
  case (Cons f sfs)
  have p: "ParseStatusFile StatusFromJSON fs' f = ParseStatusFile StatusFromJSON fs f"
    by (rule ParseStatusFile_cong) (simp add: Cons.prems)
  have ih: "findInStatusFiles StatusFromJSON fs' reqID sfs = findInStatusFiles StatusFromJSON fs reqID sfs"
    by (rule Cons.IH) (simp add: Cons.prems)
  show ?case by (simp add: p ih split: sum.splits)
qed

text \<open>The pattern of the status files of an index file depends on the name of the file only.\<close>

definition status_pattern :: "string \<Rightarrow> string \<Rightarrow> string option" where
  "status_pattern B n =
     (case FindStringSubmatch n of
        None \<Rightarrow> None
      | Some (y, m, d, r) \<Rightarrow>
          Some (Join [B, ''status'', y, m, d, TrimSuffix n (Ext n) @ ''*.dat'']))"

lemma indexFileToStatusFilePattern_in_dir:
  assumes "CHR '':'' \<notin> set D" and "Base (D @ Separator # n) = n"
    and "Ext (D @ Separator # n) = Ext n"
  shows "(case indexFileToStatusFilePattern B (D @ Separator # n) of
            Inl e \<Rightarrow> None | Inr p \<Rightarrow> Some p) = status_pattern B n"
  using FindStringSubmatch_in_dir [OF assms(1), of n] assms(2,3)
  by (auto simp: indexFileToStatusFilePattern_def parseIndexFile_def status_pattern_def Let_def
           split: option.splits)

lemma findInIndexFiles_step:
  "findInIndexFiles StatusFromJSON s fs reqID (f # rest) =
     (case (case indexFileToStatusFilePattern (baseDir s) f of Inl e \<Rightarrow> None | Inr p \<Rightarrow> Some p) of
        None \<Rightarrow> findInIndexFiles StatusFromJSON s fs reqID rest
      | Some pattern \<Rightarrow>
          (case Glob fs pattern of
             Inl err \<Rightarrow> findInIndexFiles StatusFromJSON s fs reqID rest
           | Inr statusFiles \<Rightarrow>
               (case findInStatusFiles StatusFromJSON fs reqID statusFiles of
                  Some found \<Rightarrow> Some found
                | None \<Rightarrow> findInIndexFiles StatusFromJSON s fs reqID rest)))"
  by (simp split: sum.splits)

text \<open>The glob over the status files of an index file sees the same files after the move.\<close>

lemma status_glob_moved:
  assumes sp: "status_pattern B n = Some pat" and n: "proper_name n"
    and old: "old = join_prefix B @ ''index'' @ Separator # na"
    and new: "new = join_prefix B @ ''index'' @ Separator # nb"
    and meta: "\<not> hasMeta old"
  shows "Glob (moved old new fs) pat = Glob fs pat"
    and "Glob fs pat = Inr sfs \<Longrightarrow> f \<in> set sfs \<Longrightarrow> readFile (moved old new fs) f = readFile fs f"
proof -
  let ?P = "join_prefix B"
  obtain y m d r where fs: "FindStringSubmatch n = Some (y, m, d, r)"
    and pat: "pat = Join [B, ''status'', y, m, d, TrimSuffix n (Ext n) @ ''*.dat'']"
    using sp by (auto simp: status_pattern_def split: option.splits)
  let ?q = "TrimSuffix n (Ext n) @ ''*.dat''"
  have sh: "list_all is_digit y" "length y = 4" "list_all is_digit m" "length m = 2"
    "list_all is_digit d" "length d = 2"
    using FindStringSubmatch_shape [OF fs] by simp_all
  have ne: "y \<noteq> []" "m \<noteq> []" "d \<noteq> []" using sh by auto
  have py: "proper_name y" "\<not> hasMeta y" using digits_proper [OF sh(1) ne(1)] by simp_all
  have pm: "proper_name m" "\<not> hasMeta m" using digits_proper [OF sh(3) ne(2)] by simp_all
  have pd: "proper_name d" "\<not> hasMeta d" using digits_proper [OF sh(5) ne(3)] by simp_all
  have ps: "proper_name ''status''" by (simp add: proper_name_def Separator_def)
  obtain k where k: "TrimSuffix n (Ext n) = take k n" using TrimSuffix_prefix by blast
  have qs: "Separator \<notin> set ?q"
    using n set_take_subset [of k n] unfolding k by (auto simp: proper_name_def Separator_def)
  have pq: "proper_name ?q"
    using qs long_is_real [of ?q] by (simp add: proper_name_def)
  have qm: "hasMeta ?q" by (simp add: hasMeta_append) (simp add: hasMeta_def)
  let ?es = "[''status'', y, m, d]"
  let ?sd = "Join (B # ?es)"
  have es: "list_all proper_name ?es" "?es \<noteq> []" using ps py pm pd by simp_all
  have es': "list_all proper_name (?es @ [?q])" using es pq by simp
  have sd: "?sd = ?P @ ''status'' @ Separator # y @ Separator # m @ Separator # d"
    using Join_proper [OF es, of B] by simp
  have "pat = ?P @ join_sep (?es @ [?q])"
    unfolding pat using Join_proper [OF es', of B] by simp
  then have pat': "pat = ?sd @ Separator # ?q" unfolding sd by simp
  have Pm: "\<not> hasMeta ?P" using meta unfolding old by (simp add: hasMeta_append)
  have sm: "\<not> hasMeta ?sd"
    unfolding sd using Pm py pm pd
    by (simp add: hasMeta_append) (simp add: hasMeta_def Separator_def)
  have sne: "?sd \<noteq> []" unfolding sd by simp
  have G: "\<And>fs. Glob fs pat
         = (if bad_pattern ?q then Inl (NotModelled ''pattern'') else Inr (glob fs ?sd ?q))"
    unfolding pat' by (rule Glob_in_dir [OF sm sne qs qm])
  have l: "2 \<le> length ?sd" unfolding sd by simp
  then have sdot: "?sd \<noteq> ''.''" "?sd \<noteq> ''/''" by auto
  have o1: "outside old new ?sd"
    unfolding old new sd using status_outside [of ?P na nb] by simp
  have o2: "\<And>n'. outside old new (?sd @ Separator # n')"
    unfolding old new sd using status_outside [of ?P na nb] by simp
  have g: "glob (moved old new fs) ?sd ?q = glob fs ?sd ?q"
    by (rule glob_moved_outside [OF sdot o1 o2])
  show "Glob (moved old new fs) pat = Glob fs pat" using G g by simp
  show "readFile (moved old new fs) f = readFile fs f"
    if a: "Glob fs pat = Inr sfs" and b: "f \<in> set sfs"
  proof -
    have "sfs = glob fs ?sd ?q" using a G [of fs] by (simp split: if_splits)
    then obtain n' where n': "n' \<in> set (Readdirnames fs ?sd)" and f: "f = Join [?sd, n']"
      using b by (auto simp: glob_def split: if_splits)
    have "f = ?sd @ Separator # n'"
      unfolding f by (rule Join_proper_child(1) [OF es Readdirnames_proper [OF n']])
    then have "outside old new f" using o2 by simp
    then show ?thesis by (rule readFile_moved)
  qed
qed

lemma findInIndexFiles_moved:
  assumes old: "old = Join [baseDir s, ''index'', na]" and new: "new = Join [baseDir s, ''index'', nb]"
    and na: "proper_name na" and nb: "proper_name nb"
    and meta: "\<not> hasMeta old"
    and colon: "CHR '':'' \<notin> set old" "CHR '':'' \<notin> set new"
    and M: "list_all proper_name M"
  shows "findInIndexFiles StatusFromJSON s (moved old new fs) reqID (map (\<lambda>n. new @ Separator # n) M)
         = findInIndexFiles StatusFromJSON s fs reqID (map (\<lambda>n. old @ Separator # n) M)"
  using M
proof (induction M)
  case Nil
  show ?case by simp
next
  case (Cons n M)
  let ?B = "baseDir s"
  let ?fs' = "moved old new fs"
  have n: "proper_name n" and M: "list_all proper_name M" using Cons.prems by simp_all
  have ih: "findInIndexFiles StatusFromJSON s ?fs' reqID (map (\<lambda>n. new @ Separator # n) M)
         = findInIndexFiles StatusFromJSON s fs reqID (map (\<lambda>n. old @ Separator # n) M)"
    by (rule Cons.IH [OF M])
  have ps: "proper_name ''index''" by (simp add: proper_name_def Separator_def)
  have ea: "list_all proper_name [''index'', na]" "[''index'', na] \<noteq> []" using ps na by simp_all
  have eb: "list_all proper_name [''index'', nb]" "[''index'', nb] \<noteq> []" using ps nb by simp_all
  have old': "old = join_prefix ?B @ ''index'' @ Separator # na"
    unfolding old using Join_proper [OF ea, of ?B] by simp
  have new': "new = join_prefix ?B @ ''index'' @ Separator # nb"
    unfolding new using Join_proper [OF eb, of ?B] by simp
  have po: "(case indexFileToStatusFilePattern ?B (old @ Separator # n) of
               Inl e \<Rightarrow> None | Inr p \<Rightarrow> Some p) = status_pattern ?B n"
    unfolding old
    by (rule indexFileToStatusFilePattern_in_dir
          [OF colon(1) [unfolded old] Join_proper_child(2) [OF ea n] Join_proper_child(3) [OF ea n]])
  have pn: "(case indexFileToStatusFilePattern ?B (new @ Separator # n) of
               Inl e \<Rightarrow> None | Inr p \<Rightarrow> Some p) = status_pattern ?B n"
    unfolding new
    by (rule indexFileToStatusFilePattern_in_dir
          [OF colon(2) [unfolded new] Join_proper_child(2) [OF eb n] Join_proper_child(3) [OF eb n]])
  show ?case
  proof (cases "status_pattern ?B n")
    case None
    show ?thesis
      by (simp add: findInIndexFiles_step po pn None ih del: findInIndexFiles.simps)
  next
    case (Some pat)
    have g: "Glob ?fs' pat = Glob fs pat"
      by (rule status_glob_moved(1) [OF Some n old' new' meta])
    show ?thesis
    proof (cases "Glob fs pat")
      case (Inl e)
      show ?thesis
        by (simp add: findInIndexFiles_step po pn Some g Inl ih del: findInIndexFiles.simps)
    next
      case (Inr sfs)
      have "findInStatusFiles StatusFromJSON ?fs' reqID sfs
            = findInStatusFiles StatusFromJSON fs reqID sfs"
        by (rule findInStatusFiles_cong) (rule status_glob_moved(2) [OF Some n old' new' meta Inr])
      then show ?thesis
        by (simp add: findInIndexFiles_step po pn Some g Inr ih del: findInIndexFiles.simps
                 split: option.splits)
    qed
  qed
qed

lemma Rename_moved:
  assumes "Rename s fs a b = (None, fs')" and "a \<noteq> b"
    and "isDir fs (craftIndexDataDir (baseDir s) a)"
    and "craftIndexDataDir (baseDir s) a \<noteq> ''/''" and "craftIndexDataDir (baseDir s) a \<noteq> ''.''"
  shows "fs' = moved (craftIndexDataDir (baseDir s) a) (craftIndexDataDir (baseDir s) b) fs"
    and "craftIndexDataDir (baseDir s) a \<noteq> craftIndexDataDir (baseDir s) b"
proof -
  let ?old = "craftIndexDataDir (baseDir s) a" and ?new = "craftIndexDataDir (baseDir s) b"
  have pe: "pathExists fs ?old" using assms(3) by (simp add: pathExists_def)
  have npe: "\<not> pathExists fs ?new"
    using assms(1,2) pe by (auto simp: Rename_def Let_def split: if_splits)
  show ne: "?old \<noteq> ?new" using pe npe by auto
  have r: "Rename_os fs ?old ?new = Inr fs'"
    using assms(1,2) pe npe by (auto simp: Rename_def Let_def split: if_splits sum.splits)
  then show "fs' = moved ?old ?new fs"
    using assms(3) ne unfolding Rename_os_def moved_def by (auto split: if_splits)
qed

lemma sorted_filter_sort: "sorted (filter P (sort (xs :: string list)))"
  by (rule sorted_wrt_filter) simp

lemma FindByRequestID_moved:
  assumes old: "old = Join [baseDir s, ''index'', na]" and new: "new = Join [baseDir s, ''index'', nb]"
    and na: "proper_name na" and nb: "proper_name nb"
    and meta: "\<not> hasMeta old" "\<not> hasMeta new"
    and colon: "CHR '':'' \<notin> set old" "CHR '':'' \<notin> set new"
    and dir: "isDir fs old"
    and free: "\<forall>p\<in>paths fs. \<not> below new p"
    and req: "Separator \<notin> set reqID"
  shows "(case Glob (moved old new fs) (Join [new, ''*'' @ TruncString reqID requestIDLenSafe @ ''*.dat'']) of
           Inl err \<Rightarrow> Inl err
         | Inr matches \<Rightarrow>
             (case findInIndexFiles StatusFromJSON s (moved old new fs) reqID (rev (sort matches)) of
                Some found \<Rightarrow> Inr found
              | None \<Rightarrow> Inl (Errorf reqID ErrRequestIDNotFound)))
         = (case Glob fs (Join [old, ''*'' @ TruncString reqID requestIDLenSafe @ ''*.dat'']) of
           Inl err \<Rightarrow> Inl err
         | Inr matches \<Rightarrow>
             (case findInIndexFiles StatusFromJSON s fs reqID (rev (sort matches)) of
                Some found \<Rightarrow> Inr found
              | None \<Rightarrow> Inl (Errorf reqID ErrRequestIDNotFound)))"
proof -
  let ?B = "baseDir s"
  let ?fs' = "moved old new fs"
  let ?pat = "''*'' @ TruncString reqID requestIDLenSafe @ ''*.dat''"
  have ps: "proper_name ''index''" by (simp add: proper_name_def Separator_def)
  have ea: "list_all proper_name [''index'', na]" "[''index'', na] \<noteq> []" using ps na by simp_all
  have eb: "list_all proper_name [''index'', nb]" "[''index'', nb] \<noteq> []" using ps nb by simp_all
  have old': "old = join_prefix ?B @ ''index'' @ Separator # na"
    unfolding old using Join_proper [OF ea, of ?B] by simp
  have new': "new = join_prefix ?B @ ''index'' @ Separator # nb"
    unfolding new using Join_proper [OF eb, of ?B] by simp
  have lo: "2 \<le> length old" unfolding old' by simp
  have ln: "2 \<le> length new" unfolding new' by simp
  have od: "old \<noteq> ''.''" "old \<noteq> ''/''" "old \<noteq> []" using lo by auto
  have nd: "new \<noteq> ''.''" "new \<noteq> ''/''" "new \<noteq> []" using ln by auto
  have ts: "set (TruncString reqID requestIDLenSafe) \<subseteq> set reqID"
    using set_take_subset [of requestIDLenSafe reqID] by (auto simp: TruncString_def)
  have qs: "Separator \<notin> set ?pat" using req ts by (auto simp: Separator_def)
  have pq: "proper_name ?pat" using qs long_is_real [of ?pat] by (simp add: proper_name_def)
  have qm: "hasMeta ?pat" by (simp add: hasMeta_def)
  have jo: "Join [old, ?pat] = old @ Separator # ?pat"
    unfolding old by (rule Join_proper_child(1) [OF ea pq])
  have jn: "Join [new, ?pat] = new @ Separator # ?pat"
    unfolding new by (rule Join_proper_child(1) [OF eb pq])
  have Go: "Glob fs (old @ Separator # ?pat)
         = (if bad_pattern ?pat then Inl (NotModelled ''pattern'') else Inr (glob fs old ?pat))"
    by (rule Glob_in_dir [OF meta(1) od(3) qs qm])
  have Gn: "Glob ?fs' (new @ Separator # ?pat)
         = (if bad_pattern ?pat then Inl (NotModelled ''pattern'') else Inr (glob ?fs' new ?pat))"
    by (rule Glob_in_dir [OF meta(2) nd(3) qs qm])
  let ?L = "filter (matchLoop ?pat) (sort (Readdirnames fs old))"
  have pL: "list_all proper_name ?L"
    using Readdirnames_proper [of _ fs old] by (auto simp: list_all_iff)
  have go: "glob fs old ?pat = map (\<lambda>n. Join [old, n]) ?L"
    and gn: "glob ?fs' new ?pat = map (\<lambda>n. Join [new, n]) ?L"
    using glob_moved_index [OF od(1,2) nd(1,2) free dir] by simp_all
  have mo: "map (\<lambda>n. Join [old, n]) ?L = map (\<lambda>n. (old @ [Separator]) @ n) ?L"
  proof (rule map_cong [OF refl])
    fix n assume "n \<in> set ?L"
    then have "proper_name n" using pL by (simp add: list_all_iff)
    then show "Join [old, n] = (old @ [Separator]) @ n"
      unfolding old using Join_proper_child(1) [OF ea] by simp
  qed
  have mn: "map (\<lambda>n. Join [new, n]) ?L = map (\<lambda>n. (new @ [Separator]) @ n) ?L"
  proof (rule map_cong [OF refl])
    fix n assume "n \<in> set ?L"
    then have "proper_name n" using pL by (simp add: list_all_iff)
    then show "Join [new, n] = (new @ [Separator]) @ n"
      unfolding new using Join_proper_child(1) [OF eb] by simp
  qed
  have sL: "sorted ?L" by (rule sorted_filter_sort)
  have so: "rev (sort (glob fs old ?pat)) = map (\<lambda>n. old @ Separator # n) (rev ?L)"
    unfolding go mo sort_map_prefix [OF sL] by (simp add: rev_map)
  have sn: "rev (sort (glob ?fs' new ?pat)) = map (\<lambda>n. new @ Separator # n) (rev ?L)"
    unfolding gn mn sort_map_prefix [OF sL] by (simp add: rev_map)
  have pR: "list_all proper_name (rev ?L)" using pL by (simp add: list_all_iff)
  have f: "findInIndexFiles StatusFromJSON s ?fs' reqID (rev (sort (glob ?fs' new ?pat)))
         = findInIndexFiles StatusFromJSON s fs reqID (rev (sort (glob fs old ?pat)))"
    unfolding so sn
    by (rule findInIndexFiles_moved [OF old new na nb meta(1) colon pR])
  show ?thesis
    unfolding jo jn Go Gn using f by (simp split: option.splits)
qed

text \<open>
  Claim C8, amended. \<open>Rename\<close> of \<open>a\<close> to another ID \<open>b\<close> has returned nil and the index
  directory of \<open>a\<close> existed, so that it has been renamed. The normalised IDs are proper
  names, the paths of the two index directories hold no colon and no glob metacharacter
  (the index file pattern is then matched in the file name, and \<open>Glob\<close> reads the
  directories literally), nothing lies below the index directory of \<open>b\<close>, which did not
  exist, and the request ID holds no separator. Then \<open>FindByRequestID\<close> for \<open>b\<close> on the new
  file system returns what \<open>FindByRequestID\<close> for \<open>a\<close> returned before, the error or the
  status file with its status, whose \<open>Name\<close> is the one that was written. The index
  directory of \<open>b\<close> exists, that of \<open>a\<close> does not; every path outside the two index
  directories, and so every path below the status directory, is the file or the
  directory it was.
\<close>

theorem Rename_preserves_history:
  assumes "Rename s fs a b = (None, fs')" and "a \<noteq> b"
    and "isDir fs (craftIndexDataDir (baseDir s) a)"
    and "proper_name (normalizedID a)" and "proper_name (normalizedID b)"
    and "\<not> hasMeta (craftIndexDataDir (baseDir s) a)"
    and "\<not> hasMeta (craftIndexDataDir (baseDir s) b)"
    and "CHR '':'' \<notin> set (craftIndexDataDir (baseDir s) a)"
    and "CHR '':'' \<notin> set (craftIndexDataDir (baseDir s) b)"
    and "\<forall>p\<in>paths fs. \<not> below (craftIndexDataDir (baseDir s) b) p"
    and "Separator \<notin> set reqID"
  shows "FindByRequestID StatusFromJSON s fs' b reqID = FindByRequestID StatusFromJSON s fs a reqID
         \<and> isDir fs' (craftIndexDataDir (baseDir s) b)
         \<and> \<not> isDir fs' (craftIndexDataDir (baseDir s) a)
         \<and> (\<forall>p. outside (craftIndexDataDir (baseDir s) a) (craftIndexDataDir (baseDir s) b) p \<longrightarrow>
                readFile fs' p = readFile fs p \<and> isDir fs' p = isDir fs p)
         \<and> (\<forall>p. HasPrefix p (Join [baseDir s, ''status''] @ [Separator]) \<longrightarrow>
                readFile fs' p = readFile fs p \<and> isDir fs' p = isDir fs p)"
proof -
  let ?B = "baseDir s"
  let ?old = "craftIndexDataDir ?B a" and ?new = "craftIndexDataDir ?B b"
  let ?na = "normalizedID a" and ?nb = "normalizedID b"
  have old: "?old = Join [?B, ''index'', ?na]" by (simp add: craftIndexDataDir_def)
  have new: "?new = Join [?B, ''index'', ?nb]" by (simp add: craftIndexDataDir_def)
  have ps: "proper_name ''index''" "proper_name ''status''"
    by (simp_all add: proper_name_def Separator_def)
  have ea: "list_all proper_name [''index'', ?na]" "[''index'', ?na] \<noteq> []"
    using ps assms(4) by simp_all
  have eb: "list_all proper_name [''index'', ?nb]" "[''index'', ?nb] \<noteq> []"
    using ps assms(5) by simp_all
  have old': "?old = join_prefix ?B @ ''index'' @ Separator # ?na"
    unfolding old using Join_proper [OF ea, of ?B] by simp
  have new': "?new = join_prefix ?B @ ''index'' @ Separator # ?nb"
    unfolding new using Join_proper [OF eb, of ?B] by simp
  have st: "Join [?B, ''status''] = join_prefix ?B @ ''status''"
    using Join_proper [of "[''status'']" ?B] ps by simp
  have lo: "2 \<le> length ?old" unfolding old' by simp
  then have od: "?old \<noteq> ''/''" "?old \<noteq> ''.''" by auto
  have mv: "fs' = moved ?old ?new fs" and ne: "?old \<noteq> ?new"
    using Rename_moved [OF assms(1,2,3) od] by simp_all
  have 1: "FindByRequestID StatusFromJSON s fs' b reqID = FindByRequestID StatusFromJSON s fs a reqID"
    unfolding FindByRequestID_def Let_def mv
    using FindByRequestID_moved [OF old new assms(4,5,6,7,8,9,3,10,11), of StatusFromJSON]
    by simp
  have oin: "?old \<in> set (dirs fs)" using assms(3) od by (simp add: isDir_def)
  have 2: "isDir fs' ?new"
  proof -
    have "reprefix ?old ?new ?old \<in> set (dirs fs')" unfolding mv using oin by (simp add: moved_def)
    then show ?thesis by (simp add: reprefix_def isDir_def)
  qed
  have 3: "\<not> isDir fs' ?old"
  proof
    assume "isDir fs' ?old"
    then have "?old \<in> reprefix ?old ?new ` set (dirs fs)"
      unfolding mv using od by (simp add: isDir_def moved_def)
    then obtain q where q: "q \<in> set (dirs fs)" "reprefix ?old ?new q = ?old" by auto
    consider (a) "q = ?old" "reprefix ?old ?new q = ?new"
      | (b) rest where "q = ?old @ Separator # rest" "reprefix ?old ?new q = ?new @ Separator # rest"
      | (c) "q \<noteq> ?old" "reprefix ?old ?new q = q"
      using reprefix_cases [of q ?old ?new] by blast
    then show False
    proof cases
      case a
      then show ?thesis using q ne by simp
    next
      case b
      have "?old = ?new @ Separator # rest" using q(2) b(2) by simp
      then have "below ?new ?old" unfolding below_iff by blast
      moreover have "?old \<in> paths fs" using oin by (simp add: paths_def)
      ultimately show ?thesis using assms(10) by blast
    next
      case c
      then show ?thesis using q by simp
    qed
  qed
  have 4: "\<And>p. outside ?old ?new p \<Longrightarrow> readFile fs' p = readFile fs p \<and> isDir fs' p = isDir fs p"
    unfolding mv using readFile_moved isDir_moved by blast
  have 5: "\<And>p. HasPrefix p (Join [?B, ''status''] @ [Separator]) \<Longrightarrow>
             readFile fs' p = readFile fs p \<and> isDir fs' p = isDir fs p"
  proof -
    fix p assume "HasPrefix p (Join [?B, ''status''] @ [Separator])"
    then have "below (join_prefix ?B @ ''status'') p" unfolding st by (simp add: below_def)
    then obtain rest where "p = (join_prefix ?B @ ''status'') @ Separator # rest"
      using below_iff by blast
    then have "p = join_prefix ?B @ ''status'' @ (Separator # rest)" by simp
    then have "outside ?old ?new p"
      unfolding old' new' using status_outside [of "join_prefix ?B" ?na ?nb] by simp
    then show "readFile fs' p = readFile fs p \<and> isDir fs' p = isDir fs p" by (rule 4)
  qed
  show ?thesis using 1 2 3 4 5 by blast
qed

lemma FindByRequestID_found:
  assumes "reqID \<noteq> []"
    and "Glob fs (Join [craftIndexDataDir (baseDir s) dagID,
                        ''*'' @ TruncString reqID requestIDLenSafe @ ''*.dat'']) = Inr [f]"
    and "indexFileToStatusFilePattern (baseDir s) f = Inr pat"
    and "Glob fs pat = Inr [sf]"
    and "ParseStatusFile StatusFromJSON fs sf = Inr st"
    and "RequestId st = reqID"
  shows "FindByRequestID StatusFromJSON s fs dagID reqID = Inr \<lparr>File = sf, FileStatus = st\<rparr>"
  using assms by (simp add: FindByRequestID_def Let_def)

lemma FindByRequestID_no_index:
  assumes "reqID \<noteq> []"
    and "Glob fs (Join [craftIndexDataDir (baseDir s) dagID,
                        ''*'' @ TruncString reqID requestIDLenSafe @ ''*.dat'']) = Inr []"
  shows "FindByRequestID StatusFromJSON s fs dagID reqID = Inl (Errorf reqID ErrRequestIDNotFound)"
  using assms by (simp add: FindByRequestID_def Let_def)

text \<open>
  The history of one completed run of a DAG \<open>d\<close> in the store below \<open>/b\<close>: the index file and
  the compacted status file.
\<close>

definition history_of :: "string \<Rightarrow> filesys" where
  "history_of d =
     \<lparr>files = [(''/b/index/'' @ d @ ''/'' @ d @ ''.20240102.03:04:05.000.abcd1234.dat'', []),
               (''/b/status/2024/01/02/'' @ d @ ''.20240102.03:04:05.000.abcd1234_c.dat'',
                sample_ToJSON (sample_status d ''abcd1234efgh'' StatusSuccess) @ [LF])],
      dirs = [''/b'', ''/b/index'', ''/b/index/'' @ d, ''/b/status'', ''/b/status/2024'',
              ''/b/status/2024/01'', ''/b/status/2024/01/02'']\<rparr>"

lemma parse_history_of_hello:
  "ParseStatusFile sample_StatusFromJSON (history_of ''hello'')
     ''/b/status/2024/01/02/hello.20240102.03:04:05.000.abcd1234_c.dat''
   = Inr (sample_status ''hello'' ''abcd1234efgh'' StatusSuccess)"
proof -
  let ?ws = "[sample_status ''hello'' ''abcd1234efgh'' StatusSuccess]"
  have 1: "?ws \<noteq> []" by simp
  have 2: "readFile (history_of ''hello'')
             ''/b/status/2024/01/02/hello.20240102.03:04:05.000.abcd1234_c.dat''
           = Some (status_lines sample_ToJSON ?ws)"
    by (simp add: history_of_def readFile_def status_lines_def)
  have 3: "sample_StatusFromJSON (sample_ToJSON (last ?ws)) = Some (last ?ws)" by code_simp
  have 4: "LF \<notin> set (sample_ToJSON (last ?ws))" by code_simp
  have 5: "sample_ToJSON (last ?ws) \<noteq> []" by code_simp
  have 6: "last (sample_ToJSON (last ?ws)) \<noteq> CR" by code_simp
  have "ParseStatusFile sample_StatusFromJSON (history_of ''hello'')
          ''/b/status/2024/01/02/hello.20240102.03:04:05.000.abcd1234_c.dat'' = Inr (last ?ws)"
    using 1 2 3 4 5 6 by (rule parse_last_written)
  then show ?thesis by simp
qed

lemma parse_history_of_world:
  "ParseStatusFile sample_StatusFromJSON (history_of ''world'')
     ''/b/status/2024/01/02/world.20240102.03:04:05.000.abcd1234_c.dat''
   = Inr (sample_status ''world'' ''abcd1234efgh'' StatusSuccess)"
proof -
  let ?ws = "[sample_status ''world'' ''abcd1234efgh'' StatusSuccess]"
  have 1: "?ws \<noteq> []" by simp
  have 2: "readFile (history_of ''world'')
             ''/b/status/2024/01/02/world.20240102.03:04:05.000.abcd1234_c.dat''
           = Some (status_lines sample_ToJSON ?ws)"
    by (simp add: history_of_def readFile_def status_lines_def)
  have 3: "sample_StatusFromJSON (sample_ToJSON (last ?ws)) = Some (last ?ws)" by code_simp
  have 4: "LF \<notin> set (sample_ToJSON (last ?ws))" by code_simp
  have 5: "sample_ToJSON (last ?ws) \<noteq> []" by code_simp
  have 6: "last (sample_ToJSON (last ?ws)) \<noteq> CR" by code_simp
  have "ParseStatusFile sample_StatusFromJSON (history_of ''world'')
          ''/b/status/2024/01/02/world.20240102.03:04:05.000.abcd1234_c.dat'' = Inr (last ?ws)"
    using 1 2 3 4 5 6 by (rule parse_last_written)
  then show ?thesis by simp
qed

lemma FindByRequestID_history_of_hello:
  "FindByRequestID sample_StatusFromJSON sample_store (history_of ''hello'') ''hello'' ''abcd1234efgh''
   = Inr \<lparr>File = ''/b/status/2024/01/02/hello.20240102.03:04:05.000.abcd1234_c.dat'',
          FileStatus = sample_status ''hello'' ''abcd1234efgh'' StatusSuccess\<rparr>"
proof (rule FindByRequestID_found)
  show "''abcd1234efgh'' \<noteq> []" by simp
  show "Glob (history_of ''hello'')
          (Join [craftIndexDataDir (baseDir sample_store) ''hello'',
                 ''*'' @ TruncString ''abcd1234efgh'' requestIDLenSafe @ ''*.dat''])
        = Inr [''/b/index/hello/hello.20240102.03:04:05.000.abcd1234.dat'']"
    by code_simp
  show "indexFileToStatusFilePattern (baseDir sample_store)
          ''/b/index/hello/hello.20240102.03:04:05.000.abcd1234.dat''
        = Inr ''/b/status/2024/01/02/hello.20240102.03:04:05.000.abcd1234*.dat''"
    by code_simp
  show "Glob (history_of ''hello'') ''/b/status/2024/01/02/hello.20240102.03:04:05.000.abcd1234*.dat''
        = Inr [''/b/status/2024/01/02/hello.20240102.03:04:05.000.abcd1234_c.dat'']"
    by code_simp
  show "ParseStatusFile sample_StatusFromJSON (history_of ''hello'')
          ''/b/status/2024/01/02/hello.20240102.03:04:05.000.abcd1234_c.dat''
        = Inr (sample_status ''hello'' ''abcd1234efgh'' StatusSuccess)"
    by (rule parse_history_of_hello)
  show "RequestId (sample_status ''hello'' ''abcd1234efgh'' StatusSuccess) = ''abcd1234efgh''"
    by (simp add: sample_status_def)
qed

lemma FindByRequestID_history_of_world:
  "FindByRequestID sample_StatusFromJSON sample_store (history_of ''world'') ''world'' ''abcd1234efgh''
   = Inr \<lparr>File = ''/b/status/2024/01/02/world.20240102.03:04:05.000.abcd1234_c.dat'',
          FileStatus = sample_status ''world'' ''abcd1234efgh'' StatusSuccess\<rparr>"
proof (rule FindByRequestID_found)
  show "''abcd1234efgh'' \<noteq> []" by simp
  show "Glob (history_of ''world'')
          (Join [craftIndexDataDir (baseDir sample_store) ''world'',
                 ''*'' @ TruncString ''abcd1234efgh'' requestIDLenSafe @ ''*.dat''])
        = Inr [''/b/index/world/world.20240102.03:04:05.000.abcd1234.dat'']"
    by code_simp
  show "indexFileToStatusFilePattern (baseDir sample_store)
          ''/b/index/world/world.20240102.03:04:05.000.abcd1234.dat''
        = Inr ''/b/status/2024/01/02/world.20240102.03:04:05.000.abcd1234*.dat''"
    by code_simp
  show "Glob (history_of ''world'') ''/b/status/2024/01/02/world.20240102.03:04:05.000.abcd1234*.dat''
        = Inr [''/b/status/2024/01/02/world.20240102.03:04:05.000.abcd1234_c.dat'']"
    by code_simp
  show "ParseStatusFile sample_StatusFromJSON (history_of ''world'')
          ''/b/status/2024/01/02/world.20240102.03:04:05.000.abcd1234_c.dat''
        = Inr (sample_status ''world'' ''abcd1234efgh'' StatusSuccess)"
    by (rule parse_history_of_world)
  show "RequestId (sample_status ''world'' ''abcd1234efgh'' StatusSuccess) = ''abcd1234efgh''"
    by (simp add: sample_status_def)
qed

text \<open>The history of \<open>hello\<close> after the rename of \<open>hello\<close> to \<open>world\<close>.\<close>

definition history_renamed :: filesys where
  "history_renamed =
     \<lparr>files = [(''/b/index/world/hello.20240102.03:04:05.000.abcd1234.dat'', []),
               (''/b/status/2024/01/02/hello.20240102.03:04:05.000.abcd1234_c.dat'',
                sample_ToJSON (sample_status ''hello'' ''abcd1234efgh'' StatusSuccess) @ [LF])],
      dirs = [''/b'', ''/b/index'', ''/b/index/world'', ''/b/status'', ''/b/status/2024'',
              ''/b/status/2024/01'', ''/b/status/2024/01/02'']\<rparr>"

theorem Rename_preserves_history_witness:
  "Rename sample_store (history_of ''hello'') ''hello'' ''world'' = (None, history_renamed)
   \<and> isDir (history_of ''hello'') ''/b/index/hello''
   \<and> FindByRequestID sample_StatusFromJSON sample_store (history_of ''hello'') ''hello''
        ''abcd1234efgh''
     = Inr \<lparr>File = ''/b/status/2024/01/02/hello.20240102.03:04:05.000.abcd1234_c.dat'',
            FileStatus = sample_status ''hello'' ''abcd1234efgh'' StatusSuccess\<rparr>
   \<and> FindByRequestID sample_StatusFromJSON sample_store history_renamed ''world'' ''abcd1234efgh''
     = Inr \<lparr>File = ''/b/status/2024/01/02/hello.20240102.03:04:05.000.abcd1234_c.dat'',
            FileStatus = sample_status ''hello'' ''abcd1234efgh'' StatusSuccess\<rparr>
   \<and> Status.Name (sample_status ''hello'' ''abcd1234efgh'' StatusSuccess) = ''hello''
   \<and> isDir history_renamed ''/b/index/world''
   \<and> \<not> isDir history_renamed ''/b/index/hello''
   \<and> readFile history_renamed ''/b/status/2024/01/02/hello.20240102.03:04:05.000.abcd1234_c.dat''
       = readFile (history_of ''hello'')
           ''/b/status/2024/01/02/hello.20240102.03:04:05.000.abcd1234_c.dat''"
proof -
  let ?s = sample_store and ?fs = "history_of ''hello''"
  let ?fs' = history_renamed
  let ?sf = "''/b/status/2024/01/02/hello.20240102.03:04:05.000.abcd1234_c.dat''"
  have old: "craftIndexDataDir (baseDir ?s) ''hello'' = ''/b/index/hello''" by code_simp
  have new: "craftIndexDataDir (baseDir ?s) ''world'' = ''/b/index/world''" by code_simp
  have h1: "Rename ?s ?fs ''hello'' ''world'' = (None, ?fs')" by code_simp
  have h2: "''hello'' \<noteq> ''world''" by simp
  have h3: "isDir ?fs (craftIndexDataDir (baseDir ?s) ''hello'')" by code_simp
  have h4: "proper_name (normalizedID ''hello'')" by code_simp
  have h5: "proper_name (normalizedID ''world'')" by code_simp
  have h6: "\<not> hasMeta (craftIndexDataDir (baseDir ?s) ''hello'')" by code_simp
  have h7: "\<not> hasMeta (craftIndexDataDir (baseDir ?s) ''world'')" by code_simp
  have h8: "CHR '':'' \<notin> set (craftIndexDataDir (baseDir ?s) ''hello'')" by code_simp
  have h9: "CHR '':'' \<notin> set (craftIndexDataDir (baseDir ?s) ''world'')" by code_simp
  have h10: "\<forall>p\<in>paths ?fs. \<not> below (craftIndexDataDir (baseDir ?s) ''world'') p" by code_simp
  have h11: "Separator \<notin> set ''abcd1234efgh''" by code_simp
  have hp: "HasPrefix ?sf (Join [baseDir ?s, ''status''] @ [Separator])" by code_simp
  have n: "Status.Name (sample_status ''hello'' ''abcd1234efgh'' StatusSuccess) = ''hello''"
    by (simp add: sample_status_def)
  note t = Rename_preserves_history [OF h1 h2 h3 h4 h5 h6 h7 h8 h9 h10 h11, of sample_StatusFromJSON]
  have "FindByRequestID sample_StatusFromJSON ?s ?fs' ''world'' ''abcd1234efgh''
        = FindByRequestID sample_StatusFromJSON ?s ?fs ''hello'' ''abcd1234efgh''"
    using t by blast
  moreover have "isDir ?fs' ''/b/index/world''" "\<not> isDir ?fs' ''/b/index/hello''"
    using t unfolding old new by blast+
  moreover have "readFile ?fs' ?sf = readFile ?fs ?sf" using t hp by blast
  moreover have "isDir ?fs ''/b/index/hello''" using h3 unfolding old .
  ultimately show ?thesis using h1 n FindByRequestID_history_of_hello by simp
qed

text \<open>
  The claim as stated fails when \<open>a\<close> has no index directory: \<open>Rename\<close> returns nil and
  renames nothing. With a history of \<open>world\<close> and none of \<open>hello\<close>, after the successful
  \<open>Rename\<close> of \<open>hello\<close> to \<open>world\<close> the request is found for \<open>world\<close>, although it was not
  found for \<open>hello\<close> before, and the \<open>Name\<close> of the status is \<open>world\<close>, not the old ID.
\<close>

theorem Rename_without_history_counterexample:
  "Rename sample_store (history_of ''world'') ''hello'' ''world'' = (None, history_of ''world'')
   \<and> FindByRequestID sample_StatusFromJSON sample_store (history_of ''world'') ''world'' ''abcd1234efgh''
     = Inr \<lparr>File = ''/b/status/2024/01/02/world.20240102.03:04:05.000.abcd1234_c.dat'',
            FileStatus = sample_status ''world'' ''abcd1234efgh'' StatusSuccess\<rparr>
   \<and> FindByRequestID sample_StatusFromJSON sample_store (history_of ''world'') ''hello'' ''abcd1234efgh''
     = Inl (Errorf ''abcd1234efgh'' ErrRequestIDNotFound)
   \<and> Status.Name (sample_status ''world'' ''abcd1234efgh'' StatusSuccess) = ''world''"
proof -
  have 1: "Rename sample_store (history_of ''world'') ''hello'' ''world'' = (None, history_of ''world'')"
    by code_simp
  have g: "Glob (history_of ''world'')
          (Join [craftIndexDataDir (baseDir sample_store) ''hello'',
                 ''*'' @ TruncString ''abcd1234efgh'' requestIDLenSafe @ ''*.dat'']) = Inr []"
    by code_simp
  have 3: "FindByRequestID sample_StatusFromJSON sample_store (history_of ''world'') ''hello'' ''abcd1234efgh''
     = Inl (Errorf ''abcd1234efgh'' ErrRequestIDNotFound)"
    by (rule FindByRequestID_no_index [OF _ g]) simp
  have 4: "Status.Name (sample_status ''world'' ''abcd1234efgh'' StatusSuccess) = ''world''"
    by (simp add: sample_status_def)
  show ?thesis using 1 FindByRequestID_history_of_world 3 4 by simp
qed


chapter \<open>The DAG loader\<close>

section \<open>DAGs and options\<close>

text \<open>
  Modelled from the spec: the types \<open>DAG\<close>, \<open>MailOn\<close> and \<open>BuildDAGOptions\<close>, the builder
  (\<open>buildFromDefinition\<close>) and the decoding of YAML are not among the source files. Of a
  DAG the model keeps the fields that the loader itself reads or writes, \<open>Name\<close>,
  \<open>Location\<close> and \<open>MailOn\<close>, and two more with the kinds of the others (a string and an
  integer). \<open>MailOn\<close> is optional mail routing (section 3 of the specification): a
  pointer, \<open>None\<close> being nil, as the test of the reporter builds it
  (\<open>MailOn: &MailOn{Failure: true}\<close>). Reading the file, decoding it and building a DAG
  from the definition are parameters of the loader.
\<close>

record MailOn =
  Failure :: bool
  Success :: bool

record DAG =
  Location :: string
  Name :: string
  Description :: string
  MailOn :: "MailOn option"
  HistRetentionDays :: int

definition empty_DAG :: DAG where
  "empty_DAG = \<lparr>Location = [], Name = [], Description = [], MailOn = None, HistRetentionDays = 0\<rparr>"

record BuildDAGOptions =
  parameters :: string
  headOnly :: bool
  noEval :: bool
  noSetenv :: bool
  defaultEnv :: "(string \<times> string) list"

record Loader =
  BaseConfig :: string

text \<open>
  The functions the loader calls and that are not in the sources: \<open>load\<close> reads a file into
  an untyped map, \<open>decode\<close> turns the map into a definition, \<open>build\<close> is
  \<open>buildFromDefinition\<close> (options, definition, base DAG), \<open>DefaultEnv\<close> is
  \<open>utils.DefaultEnv()\<close>.
\<close>

record ('raw, 'def) collaborators =
  load :: "string \<Rightarrow> error + 'raw"
  decode :: "'raw \<Rightarrow> error + 'def"
  build :: "BuildDAGOptions \<Rightarrow> 'def \<Rightarrow> DAG option \<Rightarrow> error + DAG"
  DefaultEnv :: "(string \<times> string) list"

section \<open>\<open>loadBaseConfig\<close> and \<open>loadBaseConfigIfRequired\<close>\<close>

text \<open>The result is a pointer to a DAG: \<open>None\<close> is the nil that \<open>loadBaseConfig\<close> returns.\<close>

definition loadBaseConfig ::
    "('raw, 'def) collaborators \<Rightarrow> filesys \<Rightarrow> string \<Rightarrow> BuildDAGOptions \<Rightarrow> error + DAG option" where
  "loadBaseConfig env fs file opts =
     (if \<not> FileExists fs file then Inr None
      else
        case load env file of
          Inl err \<Rightarrow> Inl err
        | Inr raw \<Rightarrow>
            (case decode env raw of
               Inl err \<Rightarrow> Inl err
             | Inr def \<Rightarrow>
                 let buildOpts = opts\<lparr>headOnly := False, defaultEnv := DefaultEnv env\<rparr>
                 in (case build env buildOpts def None of
                       Inl err \<Rightarrow> Inl err
                     | Inr dag \<Rightarrow> Inr (Some dag))))"

definition loadBaseConfigIfRequired ::
    "('raw, 'def) collaborators \<Rightarrow> Loader \<Rightarrow> filesys \<Rightarrow> string \<Rightarrow> BuildDAGOptions
     \<Rightarrow> error + DAG option" where
  "loadBaseConfigIfRequired env cl fs file opts =
     (if \<not> headOnly opts \<and> BaseConfig cl \<noteq> []
      then loadBaseConfig env fs (BaseConfig cl) opts
      else Inr (Some (empty_DAG\<lparr>Name := TrimSuffix (Base file) (Ext file)\<rparr>)))"

section \<open>The merge\<close>

text \<open>
  \<open>mergo.Merge(dst, src, mergo.WithOverride, mergo.WithTransformers(t))\<close> walks the two
  values by reflection. The values of the model are the kinds a DAG is made of: strings,
  integers, booleans, pointers and structs (with the name of their type). For a
  destination that is not a nil pointer the transformer of its type, if there is one, does
  the merge. Otherwise a struct is merged field by field; a nil source pointer leaves the
  destination, a nil destination pointer takes the source pointer, two pointers are
  merged at what they point to; a value of another kind is replaced by the source unless
  the source is empty (the zero value).
\<close>

datatype rvalue =
    VString string
  | VInt int
  | VBool bool
  | VPtr "rvalue option"
  | VStruct string "rvalue list"

fun isEmptyValue :: "rvalue \<Rightarrow> bool" where
  "isEmptyValue (VString s) = (s = [])"
| "isEmptyValue (VInt i) = (i = 0)"
| "isEmptyValue (VBool b) = (\<not> b)"
| "isEmptyValue (VPtr None) = True"
| "isEmptyValue (VPtr (Some v)) = isEmptyValue v"
| "isEmptyValue (VStruct n fs) = False"

fun deepMerge :: "(string \<Rightarrow> (rvalue \<Rightarrow> rvalue \<Rightarrow> rvalue) option) \<Rightarrow> rvalue \<Rightarrow> rvalue \<Rightarrow> rvalue"
  and deepMergeFields ::
    "(string \<Rightarrow> (rvalue \<Rightarrow> rvalue \<Rightarrow> rvalue) option) \<Rightarrow> rvalue list \<Rightarrow> rvalue list \<Rightarrow> rvalue list"
  where
  "deepMerge T (VStruct n ds) (VStruct m ss) =
     (case T n of
        Some fn \<Rightarrow> fn (VStruct n ds) (VStruct m ss)
      | None \<Rightarrow> VStruct n (deepMergeFields T ds ss))"
| "deepMerge T (VPtr d) (VPtr None) = VPtr d"
| "deepMerge T (VPtr None) (VPtr (Some sv)) = VPtr (Some sv)"
| "deepMerge T (VPtr (Some dv)) (VPtr (Some sv)) = VPtr (Some (deepMerge T dv sv))"
| "deepMerge T dst src = (if isEmptyValue src then dst else src)"
| "deepMergeFields T (d # ds) (s # ss) = deepMerge T d s # deepMergeFields T ds ss"
| "deepMergeFields T ds ss = ds"

text \<open>
  \<open>mergeTranformer.Transformer\<close>: for the type \<open>MailOn\<close> the function that sets the
  destination to the source (the destination, reached through the pointer to the DAG, can
  be set); nil for every other type.
\<close>

definition Transformer :: "string \<Rightarrow> (rvalue \<Rightarrow> rvalue \<Rightarrow> rvalue) option" where
  "Transformer typ = (if typ = ''MailOn'' then Some (\<lambda>dst src. src) else None)"

definition MailOn_value :: "MailOn \<Rightarrow> rvalue" where
  "MailOn_value m = VStruct ''MailOn'' [VBool (Failure m), VBool (Success m)]"

definition DAG_value :: "DAG \<Rightarrow> rvalue" where
  "DAG_value d =
     VStruct ''DAG''
       [VString (Location d), VString (Name d), VString (Description d),
        VPtr (map_option MailOn_value (MailOn d)), VInt (HistRetentionDays d)]"

fun value_MailOn :: "rvalue \<Rightarrow> MailOn option" where
  "value_MailOn (VPtr (Some (VStruct n [VBool f, VBool s]))) = Some \<lparr>Failure = f, Success = s\<rparr>"
| "value_MailOn v = None"

fun value_DAG :: "rvalue \<Rightarrow> DAG" where
  "value_DAG (VStruct n [VString l, VString nm, VString de, m, VInt h]) =
     \<lparr>Location = l, Name = nm, Description = de, MailOn = value_MailOn m, HistRetentionDays = h\<rparr>"
| "value_DAG v = empty_DAG"

definition merge :: "DAG \<Rightarrow> DAG \<Rightarrow> DAG" where
  "merge dst src = value_DAG (deepMerge Transformer (DAG_value dst) (DAG_value src))"

lemma merge_fields:
  "merge dst src =
     \<lparr>Location = (if Location src = [] then Location dst else Location src),
      Name = (if Name src = [] then Name dst else Name src),
      Description = (if Description src = [] then Description dst else Description src),
      MailOn = (case MailOn src of None \<Rightarrow> MailOn dst | Some m \<Rightarrow> Some m),
      HistRetentionDays = (if HistRetentionDays src = 0 then HistRetentionDays dst
                           else HistRetentionDays src)\<rparr>"
  by (cases "MailOn src"; cases "MailOn dst")
     (auto simp: merge_def DAG_value_def MailOn_value_def Transformer_def)

lemma deepMerge_without_transformer:
  "deepMerge (\<lambda>typ. None) (MailOn_value \<lparr>Failure = True, Success = False\<rparr>)
                           (MailOn_value \<lparr>Failure = False, Success = True\<rparr>)
   = MailOn_value \<lparr>Failure = True, Success = True\<rparr>"
  by (simp add: MailOn_value_def)


section \<open>Properties of the loader\<close>

lemma loadBaseConfigIfRequired_no_base:
  "headOnly opts \<or> BaseConfig cl = [] \<Longrightarrow>
   loadBaseConfigIfRequired env cl fs file opts
   = Inr (Some (empty_DAG\<lparr>Name := TrimSuffix (Base file) (Ext file)\<rparr>))"
  by (auto simp: loadBaseConfigIfRequired_def)

lemma loadBaseConfigIfRequired_base_exists:
  "\<not> headOnly opts \<Longrightarrow> BaseConfig cl \<noteq> [] \<Longrightarrow> FileExists fs (BaseConfig cl) \<Longrightarrow>
   load env (BaseConfig cl) = Inr raw \<Longrightarrow> decode env raw = Inr def \<Longrightarrow>
   build env (opts\<lparr>headOnly := False, defaultEnv := DefaultEnv env\<rparr>) def None = Inr dag \<Longrightarrow>
   loadBaseConfigIfRequired env cl fs file opts = Inr (Some dag)"
  by (simp add: loadBaseConfigIfRequired_def loadBaseConfig_def)

lemma loadBaseConfigIfRequired_base_missing:
  "\<not> headOnly opts \<Longrightarrow> BaseConfig cl \<noteq> [] \<Longrightarrow> \<not> FileExists fs (BaseConfig cl) \<Longrightarrow>
   loadBaseConfigIfRequired env cl fs file opts = Inr None"
  by (simp add: loadBaseConfigIfRequired_def loadBaseConfig_def)

text \<open>
  Claim C4. Two of the three cases of the claim hold (lemmas
  \<open>loadBaseConfigIfRequired_base_exists\<close> and \<open>loadBaseConfigIfRequired_no_base\<close>). The third
  does not: with a base path configured, the mode not HeadOnly and no file at the base
  path, \<open>loadBaseConfig\<close> returns nil without an error and \<open>loadBaseConfigIfRequired\<close>
  passes the nil on; the template is not the empty DAG named after the stem of the file.
\<close>

theorem loadBaseConfigIfRequired_missing_base_file_nil:
  "loadBaseConfigIfRequired env \<lparr>BaseConfig = ''/etc/dagu/base.yaml''\<rparr>
      \<lparr>files = [(''/dags/job.yaml'', ''steps: []'')], dirs = [''/dags'']\<rparr> ''/dags/job.yaml''
      (opts\<lparr>headOnly := False\<rparr>)
     = Inr None
   \<and> TrimSuffix (Base ''/dags/job.yaml'') (Ext ''/dags/job.yaml'') = ''job''
   \<and> (Inr None :: error + DAG option) \<noteq> Inr (Some (empty_DAG\<lparr>Name := ''job''\<rparr>))"
proof -
  have "\<not> FileExists \<lparr>files = [(''/dags/job.yaml'', ''steps: []'')], dirs = [''/dags'']\<rparr>
           ''/etc/dagu/base.yaml''"
    by code_simp
  then have 1: "loadBaseConfigIfRequired env \<lparr>BaseConfig = ''/etc/dagu/base.yaml''\<rparr>
      \<lparr>files = [(''/dags/job.yaml'', ''steps: []'')], dirs = [''/dags'']\<rparr> ''/dags/job.yaml''
      (opts\<lparr>headOnly := False\<rparr>) = Inr None"
    by (intro loadBaseConfigIfRequired_base_missing) simp_all
  have 2: "TrimSuffix (Base ''/dags/job.yaml'') (Ext ''/dags/job.yaml'') = ''job''"
    by code_simp
  show ?thesis using 1 2 by simp
qed

text \<open>
  Claim C5, amended. In the merge of the base template \<open>dst\<close> with the DAG \<open>src\<close> just built,
  the \<open>MailOn\<close> of the result is the \<open>MailOn\<close> of the source when the source has one, and
  it is then exactly the source's value, whatever the \<open>MailOn\<close> of the base is: at the value
  of type \<open>MailOn\<close> the merge with the loader's transformer returns the source, no field of
  the base's \<open>MailOn\<close> is kept where the field of the source is zero (without the
  transformer the fields are combined, lemma \<open>deepMerge_without_transformer\<close>). When the
  source has no \<open>MailOn\<close> (a nil pointer), the merge never reaches a value of type \<open>MailOn\<close>
  and the result keeps the \<open>MailOn\<close> of the base.
\<close>

theorem merge_MailOn_source_or_base:
  "MailOn (merge dst src) = (case MailOn src of None \<Rightarrow> MailOn dst | Some m \<Rightarrow> Some m)
   \<and> deepMerge Transformer (MailOn_value b) (MailOn_value m) = MailOn_value m"
  by (simp add: merge_fields MailOn_value_def Transformer_def)

text \<open>
  The claim as stated, the destination's \<open>MailOn\<close> becomes the source's in every merge,
  fails for a source without \<open>MailOn\<close>: a base template that mails on failure, merged with
  a DAG that says nothing about mail, still mails on failure.
\<close>

theorem merge_MailOn_nil_source_counterexample:
  "MailOn (merge (empty_DAG\<lparr>MailOn := Some \<lparr>Failure = True, Success = False\<rparr>\<rparr>)
                 (empty_DAG\<lparr>Name := ''job''\<rparr>))
     = Some \<lparr>Failure = True, Success = False\<rparr>
   \<and> MailOn (empty_DAG\<lparr>Name := ''job''\<rparr>) = None
   \<and> MailOn (merge (empty_DAG\<lparr>MailOn := Some \<lparr>Failure = True, Success = False\<rparr>\<rparr>)
                   (empty_DAG\<lparr>Name := ''job''\<rparr>))
       \<noteq> MailOn (empty_DAG\<lparr>Name := ''job''\<rparr>)"
  by (simp add: merge_fields empty_DAG_def)

end
